theory Spec2Isabelle
  imports Complex_Main "HOL-Library.Word" "HOL-Library.AList"
begin

section \<open>Limit order book: data model\<close>

text \<open>
  The development embeds \<^verbatim>\<open>capstone_project/order_book.hpp\<close> and
  \<^verbatim>\<open>capstone_project/order_book.cpp\<close>.

  \<^item> \<^verbatim>\<open>uint64_t\<close> and \<^verbatim>\<open>size_t\<close> fields are 64-bit words, so every
    \<^verbatim>\<open>+=\<close>, \<^verbatim>\<open>-=\<close>, \<^verbatim>\<open>++\<close> and \<^verbatim>\<open>--\<close> wraps as in C++.
  \<^item> A \<^verbatim>\<open>double\<close> is a finite value, an infinity or NaN.  Finite values are
    rationals and arithmetic on them is exact: rounding is not modelled.  Comparisons follow
    IEEE 754 (every comparison with NaN is false).
  \<^item> \<^verbatim>\<open>Order*\<close> is an optional address into the order pool's memory;
    \<^verbatim>\<open>nullptr\<close> is \<open>None\<close>.  Order records live in an explicit store, because levels, the
    lookup table and the orders themselves all keep pointers to them.
  \<^item> \<^verbatim>\<open>InternalPriceLevel*\<close> values never leave the two side maps (every function takes
    them from a map entry and drops them on return), so a side map holds the level record itself
    and a write through the pointer is a write to the entry.  The level pool is then invisible.
  \<^item> \<^verbatim>\<open>std::cout\<close> and \<^verbatim>\<open>std::cerr\<close> output is returned as values: one
    \<open>Trade\<close> per \<^verbatim>\<open>MATCH:\<close> line, one \<open>diag\<close> per error line.
\<close>

type_synonym u64 = "64 word"
type_synonym addr = nat

datatype double = Finite rat | PosInf | NegInf | NaN

fun dless :: "double \<Rightarrow> double \<Rightarrow> bool" where
  "dless (Finite x) (Finite y) = (x < y)"
| "dless (Finite x) PosInf = True"
| "dless NegInf (Finite y) = True"
| "dless NegInf PosInf = True"
| "dless x y = False"

fun deq :: "double \<Rightarrow> double \<Rightarrow> bool" where
  "deq (Finite x) (Finite y) = (x = y)"
| "deq PosInf PosInf = True"
| "deq NegInf NegInf = True"
| "deq x y = False"

fun dsub :: "double \<Rightarrow> double \<Rightarrow> double" where
  "dsub (Finite x) (Finite y) = Finite (x - y)"
| "dsub NaN y = NaN"
| "dsub x NaN = NaN"
| "dsub PosInf PosInf = NaN"
| "dsub NegInf NegInf = NaN"
| "dsub PosInf y = PosInf"
| "dsub NegInf y = NegInf"
| "dsub (Finite x) PosInf = NegInf"
| "dsub (Finite x) NegInf = PosInf"

definition isnan :: "double \<Rightarrow> bool" where
  "isnan x = (x = NaN)"

definition isinf :: "double \<Rightarrow> bool" where
  "isinf x = (x = PosInf \<or> x = NegInf)"

definition MEMORY_POOL_BLOCK_SIZE :: nat where
  "MEMORY_POOL_BLOCK_SIZE = 1024"

definition MAX_ORDER_QUANTITY :: u64 where
  "MAX_ORDER_QUANTITY = 1000000"

definition MIN_PRICE :: double where
  "MIN_PRICE = Finite (1 / 100)"

definition MAX_PRICE :: double where
  "MAX_PRICE = Finite 1000000"

text \<open>\<^verbatim>\<open>std::numeric_limits<double>::max()\<close>, the largest finite double.\<close>

definition DBL_MAX :: double where
  "DBL_MAX = Finite ((2 ^ 53 - 1) * 2 ^ 971)"

text \<open>
  \<^verbatim>\<open>struct Order\<close>.  The fields of \<^verbatim>\<open>InternalPriceLevel\<close> that share a name with
  a field of \<^verbatim>\<open>Order\<close> carry the prefix \<open>lvl_\<close>.
\<close>

record Order =
  order_id :: u64
  is_buy :: bool
  price :: double
  quantity :: u64
  timestamp_ns :: u64
  "next" :: "addr option"
  prev :: "addr option"
  is_active :: bool

record InternalPriceLevel =
  lvl_price :: double
  total_quantity :: u64
  first_order :: "addr option"
  last_order :: "addr option"
  order_count :: u64
  lvl_is_active :: bool

text \<open>
  \<^verbatim>\<open>SimpleMemoryPool<Order>\<close>.  Slot \<open>i\<close> of block \<open>k\<close> has address
  \<open>k * MEMORY_POOL_BLOCK_SIZE + i\<close>; the pool always bumps in its last block.  The free list
  is threaded through the freed slots: \<open>free_link a\<close> is the pointer that
  \<^verbatim>\<open>push_free_list\<close> stores in slot \<open>a\<close>.  The source stores it over the first word of
  the slot, which is \<open>order_id\<close>; that overlay is not modelled, a freed slot keeps the
  \<open>order_id\<close> it had.
\<close>

record SimpleMemoryPool =
  current_block_index :: nat
  current_position :: nat
  free_list_head :: "addr option"
  free_link :: "addr \<Rightarrow> addr option"

type_synonym side_map = "(double \<times> InternalPriceLevel) list"

text \<open>
  \<^verbatim>\<open>OrderBook::Impl\<close>.  A \<^verbatim>\<open>std::map\<close> is the list of its entries in iteration
  order, \<^verbatim>\<open>begin()\<close> is the head.  \<^verbatim>\<open>order_lookup_\<close> is an association list with
  one entry per key; its iteration order is never used.
\<close>

record OrderBook =
  bids :: side_map
  asks :: side_map
  order_lookup :: "(u64 \<times> addr) list"
  order_mem :: "addr \<Rightarrow> Order"
  order_pool :: SimpleMemoryPool
  matching_in_progress :: bool
  version :: u64

record Trade =
  match_quantity :: u64
  match_price :: double
  bid_id :: u64
  ask_id :: u64

datatype diag =
    InvalidOrderId
  | InvalidPrice
  | InvalidQuantity
  | DuplicateOrderId
  | OrderNotFound
  | OrderNotActive
  | PriceLevelNotFound

datatype add_outcome = Rejected diag | Accepted "Trade list"

section \<open>Memory pool\<close>

definition allocate :: "SimpleMemoryPool \<Rightarrow> addr \<times> SimpleMemoryPool" where
  "allocate p =
     (case free_list_head p of
        Some h \<Rightarrow> (h, p\<lparr>free_list_head := free_link p h\<rparr>)
      | None \<Rightarrow>
          (let p1 = (if MEMORY_POOL_BLOCK_SIZE \<le> current_position p
                     then p\<lparr>current_block_index := current_block_index p + 1,
                            current_position := 0\<rparr>
                     else p)
           in (current_block_index p1 * MEMORY_POOL_BLOCK_SIZE + current_position p1,
               p1\<lparr>current_position := current_position p1 + 1\<rparr>)))"

definition deallocate :: "addr \<Rightarrow> SimpleMemoryPool \<Rightarrow> SimpleMemoryPool" where
  "deallocate a p = p\<lparr>free_link := (free_link p)(a := free_list_head p),
                      free_list_head := Some a\<rparr>"

section \<open>Price levels\<close>

text \<open>\<^verbatim>\<open>InternalPriceLevel::add_order\<close>, \<^verbatim>\<open>remove_order\<close> and \<^verbatim>\<open>is_empty\<close>.\<close>

definition level_add_order ::
  "addr \<Rightarrow> InternalPriceLevel \<Rightarrow> (addr \<Rightarrow> Order) \<Rightarrow> InternalPriceLevel \<times> (addr \<Rightarrow> Order)" where
  "level_add_order a L m =
     (let (L1, m1) =
            (if first_order L = None
             then (L\<lparr>first_order := Some a, last_order := Some a\<rparr>, m)
             else (let m' = m(a := (m a)\<lparr>prev := last_order L\<rparr>);
                       m'' = (case last_order L of
                                Some l \<Rightarrow> m'(l := (m' l)\<lparr>next := Some a\<rparr>)
                              | None \<Rightarrow> m')
                   in (L\<lparr>last_order := Some a\<rparr>, m'')))
      in (L1\<lparr>total_quantity := total_quantity L1 + quantity (m1 a),
             order_count := order_count L1 + 1\<rparr>, m1))"

definition level_remove_order ::
  "addr \<Rightarrow> InternalPriceLevel \<Rightarrow> (addr \<Rightarrow> Order) \<Rightarrow> InternalPriceLevel \<times> (addr \<Rightarrow> Order)" where
  "level_remove_order a L m =
     (if \<not> is_active (m a) then (L, m)
      else
        (let m1 = m(a := (m a)\<lparr>is_active := False\<rparr>);
             p = prev (m1 a);
             n = next (m1 a);
             (L1, m2) = (case p of
                           Some pa \<Rightarrow> (L, m1(pa := (m1 pa)\<lparr>next := n\<rparr>))
                         | None \<Rightarrow> (L\<lparr>first_order := n\<rparr>, m1));
             (L2, m3) = (case n of
                           Some na \<Rightarrow> (L1, m2(na := (m2 na)\<lparr>prev := p\<rparr>))
                         | None \<Rightarrow> (L1\<lparr>last_order := p\<rparr>, m2))
         in (L2\<lparr>total_quantity := total_quantity L2 - quantity (m3 a),
                order_count := order_count L2 - 1\<rparr>, m3)))"

definition level_is_empty :: "InternalPriceLevel \<Rightarrow> bool" where
  "level_is_empty L = (order_count L = 0)"

section \<open>Side index\<close>

text \<open>
  \<^verbatim>\<open>bids_\<close> is ordered by \<^verbatim>\<open>std::greater<Price>\<close>, \<^verbatim>\<open>asks_\<close> by
  \<^verbatim>\<open>std::less<Price>\<close>.  Two keys denote the same entry when neither is ordered before
  the other.
\<close>

definition side_comp :: "bool \<Rightarrow> double \<Rightarrow> double \<Rightarrow> bool" where
  "side_comp buy x y = (if buy then dless y x else dless x y)"

definition key_equiv :: "(double \<Rightarrow> double \<Rightarrow> bool) \<Rightarrow> double \<Rightarrow> double \<Rightarrow> bool" where
  "key_equiv lt x y = (\<not> (lt x y \<or> lt y x))"

fun map_find :: "(double \<Rightarrow> double \<Rightarrow> bool) \<Rightarrow> double \<Rightarrow> side_map \<Rightarrow> InternalPriceLevel option" where
  "map_find lt k [] = None"
| "map_find lt k ((k', L) # xs) = (if key_equiv lt k' k then Some L else map_find lt k xs)"

fun map_insert :: "(double \<Rightarrow> double \<Rightarrow> bool) \<Rightarrow> double \<Rightarrow> InternalPriceLevel \<Rightarrow> side_map \<Rightarrow> side_map" where
  "map_insert lt k L [] = [(k, L)]"
| "map_insert lt k L ((k', L') # xs) =
     (if lt k k' then (k, L) # (k', L') # xs else (k', L') # map_insert lt k L xs)"

fun map_erase :: "(double \<Rightarrow> double \<Rightarrow> bool) \<Rightarrow> double \<Rightarrow> side_map \<Rightarrow> side_map" where
  "map_erase lt k [] = []"
| "map_erase lt k ((k', L) # xs) =
     (if key_equiv lt k' k then xs else (k', L) # map_erase lt k xs)"

text \<open>A write through the level pointer that \<open>map_find\<close> returned for \<open>k\<close>.\<close>

fun map_store :: "(double \<Rightarrow> double \<Rightarrow> bool) \<Rightarrow> double \<Rightarrow> InternalPriceLevel \<Rightarrow> side_map \<Rightarrow> side_map" where
  "map_store lt k L [] = []"
| "map_store lt k L ((k', L') # xs) =
     (if key_equiv lt k' k then (k', L) # xs else (k', L') # map_store lt k L xs)"

definition side_of :: "bool \<Rightarrow> OrderBook \<Rightarrow> side_map" where
  "side_of buy b = (if buy then bids b else asks b)"

definition set_side :: "bool \<Rightarrow> side_map \<Rightarrow> OrderBook \<Rightarrow> OrderBook" where
  "set_side buy s b = (if buy then b\<lparr>bids := s\<rparr> else b\<lparr>asks := s\<rparr>)"

definition new_level :: "double \<Rightarrow> InternalPriceLevel" where
  "new_level p = \<lparr>lvl_price = p, total_quantity = 0, first_order = None, last_order = None,
                  order_count = 0, lvl_is_active = True\<rparr>"

definition get_or_create_level :: "double \<Rightarrow> bool \<Rightarrow> OrderBook \<Rightarrow> InternalPriceLevel \<times> OrderBook" where
  "get_or_create_level p buy b =
     (case map_find (side_comp buy) p (side_of buy b) of
        Some L \<Rightarrow> (L, b)
      | None \<Rightarrow> (new_level p,
                 set_side buy (map_insert (side_comp buy) p (new_level p) (side_of buy b)) b))"

definition get_level :: "double \<Rightarrow> bool \<Rightarrow> OrderBook \<Rightarrow> InternalPriceLevel option" where
  "get_level p buy b = map_find (side_comp buy) p (side_of buy b)"

definition put_level :: "double \<Rightarrow> bool \<Rightarrow> InternalPriceLevel \<Rightarrow> OrderBook \<Rightarrow> OrderBook" where
  "put_level p buy L b = set_side buy (map_store (side_comp buy) p L (side_of buy b)) b"

definition remove_price_level :: "double \<Rightarrow> bool \<Rightarrow> OrderBook \<Rightarrow> OrderBook" where
  "remove_price_level p buy b = set_side buy (map_erase (side_comp buy) p (side_of buy b)) b"

section \<open>Matching engine\<close>

text \<open>
  \<^verbatim>\<open>remove_filled_order\<close> is only called with the \<^verbatim>\<open>begin()\<close> entry of the side, so
  the level and the iterator it receives are the head of the side's list.
\<close>

definition remove_filled_order :: "addr \<Rightarrow> bool \<Rightarrow> OrderBook \<Rightarrow> bool \<times> OrderBook" where
  "remove_filled_order a buy b =
     (case side_of buy b of
        [] \<Rightarrow> (False, b)
      | (k, L) # rest \<Rightarrow>
          (if quantity (order_mem b a) = 0
           then (let (L', m') = level_remove_order a L (order_mem b);
                     b1 = b\<lparr>order_mem := m',
                            order_lookup := AList.delete (order_id (m' a)) (order_lookup b),
                            order_pool := deallocate a (order_pool b)\<rparr>
                 in if level_is_empty L' then (True, set_side buy rest b1)
                    else (False, set_side buy ((k, L') # rest) b1))
           else (False, b)))"

text \<open>
  One pass through the body of the \<^verbatim>\<open>while\<close> loop of \<^verbatim>\<open>match_orders\<close>.
  \<open>None\<close> is a pass that leaves the loop (the loop condition fails or a \<^verbatim>\<open>break\<close> is
  taken); otherwise the pass prints one trade and sets \<^verbatim>\<open>matched = true\<close>.
\<close>

definition match_step :: "OrderBook \<Rightarrow> (Trade \<times> OrderBook) option" where
  "match_step b =
     (case bids b of
        [] \<Rightarrow> None
      | (bp, bid_level) # _ \<Rightarrow>
     (case asks b of
        [] \<Rightarrow> None
      | (ap, ask_level) # _ \<Rightarrow>
          (if dless bp ap then None
           else if \<not> lvl_is_active bid_level \<or> \<not> lvl_is_active ask_level then None
           else
     (case first_order bid_level of
        None \<Rightarrow> None
      | Some bid_order \<Rightarrow>
     (case first_order ask_level of
        None \<Rightarrow> None
      | Some ask_order \<Rightarrow>
          (let m = order_mem b in
           if \<not> is_active (m bid_order) \<or> \<not> is_active (m ask_order) then None
           else
             (let bid_qty = quantity (m bid_order);
                  ask_qty = quantity (m ask_order);
                  mq = min bid_qty ask_qty;
                  mp = (if timestamp_ns (m bid_order) \<le> timestamp_ns (m ask_order)
                        then price (m bid_order) else price (m ask_order));
                  t = \<lparr>match_quantity = mq, match_price = mp,
                       bid_id = order_id (m bid_order), ask_id = order_id (m ask_order)\<rparr>;
                  m1 = m(bid_order := (m bid_order)\<lparr>quantity := quantity (m bid_order) - mq\<rparr>);
                  m2 = m1(ask_order := (m1 ask_order)\<lparr>quantity := quantity (m1 ask_order) - mq\<rparr>);
                  (bid_removed, b1) = remove_filled_order bid_order True (b\<lparr>order_mem := m2\<rparr>);
                  (ask_removed, b2) = remove_filled_order ask_order False b1
              in Some (t, b2))))))))"

text \<open>
  The loop.  It need not terminate on every state, so the result is optional: \<open>None\<close> is a
  loop that never leaves.
\<close>

partial_function (option) match_loop :: "Trade list \<Rightarrow> OrderBook \<Rightarrow> (Trade list \<times> OrderBook) option" where
  "match_loop acc b =
     (case match_step b of
        None \<Rightarrow> Some (rev acc, b)
      | Some (t, b') \<Rightarrow> match_loop (t # acc) b')"

declare match_loop.simps [code]

definition match_orders :: "OrderBook \<Rightarrow> (Trade list \<times> OrderBook) option" where
  "match_orders b =
     (if matching_in_progress b then Some ([], b)
      else (case match_loop [] (b\<lparr>matching_in_progress := True\<rparr>) of
              None \<Rightarrow> None
            | Some (ts, b') \<Rightarrow> Some (ts, b'\<lparr>matching_in_progress := False\<rparr>)))"

section \<open>Book facade\<close>

text \<open>
  \<^verbatim>\<open>OrderBook::add_order\<close>.  \<^verbatim>\<open>allocate\<close> and \<^verbatim>\<open>get_or_create_level\<close>
  never return \<^verbatim>\<open>nullptr\<close> (a failed allocation throws), so the two branches that test
  for it are dead and are left out.  The result is \<open>None\<close> when \<^verbatim>\<open>match_orders\<close> does
  not return.
\<close>

definition price_rejected :: "double \<Rightarrow> bool" where
  "price_rejected p = (dless p MIN_PRICE \<or> dless MAX_PRICE p \<or> isnan p \<or> isinf p)"

definition quantity_rejected :: "u64 \<Rightarrow> bool" where
  "quantity_rejected q = (q = 0 \<or> MAX_ORDER_QUANTITY < q)"

text \<open>
  Lines 358 to 379 of \<^verbatim>\<open>add_order\<close>: take a slot, copy the order into it, register
  it in the lookup, append it to its level, bump the version.
\<close>

definition place_order :: "Order \<Rightarrow> OrderBook \<Rightarrow> OrderBook" where
  "place_order ord b =
     (let (new_order, pool') = allocate (order_pool b);
          m1 = (order_mem b)(new_order := ord\<lparr>next := None, prev := None, is_active := True\<rparr>);
          b1 = b\<lparr>order_pool := pool', order_mem := m1,
                 order_lookup := AList.update (order_id ord) new_order (order_lookup b)\<rparr>;
          (L, b2) = get_or_create_level (price ord) (is_buy ord) b1;
          (L', m2) = level_add_order new_order L (order_mem b2);
          b3 = put_level (price ord) (is_buy ord) L' (b2\<lparr>order_mem := m2\<rparr>)
      in b3\<lparr>version := version b3 + 1\<rparr>)"

definition add_order :: "Order \<Rightarrow> OrderBook \<Rightarrow> (add_outcome \<times> OrderBook) option" where
  "add_order ord b =
     (if order_id ord = 0 then Some (Rejected InvalidOrderId, b)
      else if price_rejected (price ord) then Some (Rejected InvalidPrice, b)
      else if quantity_rejected (quantity ord) then Some (Rejected InvalidQuantity, b)
      else if map_of (order_lookup b) (order_id ord) \<noteq> None
        then Some (Rejected DuplicateOrderId, b)
      else (case match_orders (place_order ord b) of
              None \<Rightarrow> None
            | Some (ts, b') \<Rightarrow> Some (Accepted ts, b')))"

text \<open>
  The part that \<^verbatim>\<open>cancel_order\<close> and the price-change branch of \<^verbatim>\<open>amend_order\<close>
  share word for word: look the order's level up, unlink the order, release the level when it
  became empty.  The lookup table only ever receives addresses that \<^verbatim>\<open>allocate\<close> returned,
  so the \<^verbatim>\<open>!order\<close> tests of the two functions never fire and a lookup entry is an address;
  likewise the \<^verbatim>\<open>!new_level\<close> branch of \<^verbatim>\<open>amend_order\<close> is dead and is left out.
\<close>

definition unlink_from_level :: "addr \<Rightarrow> OrderBook \<Rightarrow> OrderBook" where
  "unlink_from_level a b =
     (let ord = order_mem b a
      in (case get_level (price ord) (is_buy ord) b of
            None \<Rightarrow> b
          | Some L \<Rightarrow>
              (let (L', m') = level_remove_order a L (order_mem b);
                   b' = put_level (price ord) (is_buy ord) L' (b\<lparr>order_mem := m'\<rparr>)
               in if level_is_empty L'
                  then remove_price_level (lvl_price L') (is_buy (m' a)) b'
                  else b')))"

definition cancel_order :: "u64 \<Rightarrow> OrderBook \<Rightarrow> bool \<times> diag option \<times> OrderBook" where
  "cancel_order oid b =
     (if oid = 0 then (False, Some InvalidOrderId, b)
      else (case map_of (order_lookup b) oid of
              None \<Rightarrow> (False, Some OrderNotFound, b)
            | Some a \<Rightarrow>
                (let b1 = b\<lparr>order_lookup := AList.delete oid (order_lookup b)\<rparr>
                 in if \<not> is_active (order_mem b1 a)
                    then (False, None, b1\<lparr>order_pool := deallocate a (order_pool b1)\<rparr>)
                    else (let b2 = unlink_from_level a b1
                          in (True, None, b2\<lparr>order_pool := deallocate a (order_pool b2),
                                              version := version b2 + 1\<rparr>)))))"

definition amend_order ::
  "u64 \<Rightarrow> double \<Rightarrow> u64 \<Rightarrow> OrderBook \<Rightarrow> bool \<times> diag option \<times> OrderBook" where
  "amend_order oid new_price new_quantity b =
     (if oid = 0 then (False, Some InvalidOrderId, b)
      else if price_rejected new_price then (False, Some InvalidPrice, b)
      else if quantity_rejected new_quantity then (False, Some InvalidQuantity, b)
      else (case map_of (order_lookup b) oid of
              None \<Rightarrow> (False, Some OrderNotFound, b)
            | Some a \<Rightarrow>
                (if \<not> is_active (order_mem b a) then (False, Some OrderNotActive, b)
                 else if \<not> deq (price (order_mem b a)) new_price
                 then (let b1 = unlink_from_level a b;
                           m2 = (order_mem b1)(a := (order_mem b1 a)
                                   \<lparr>price := new_price, quantity := new_quantity\<rparr>);
                           b2 = b1\<lparr>order_mem := m2\<rparr>;
                           (NL, b3) = get_or_create_level new_price (is_buy (m2 a)) b2;
                           (NL', m3) = level_add_order a NL (order_mem b3);
                           b4 = put_level new_price (is_buy (m2 a)) NL' (b3\<lparr>order_mem := m3\<rparr>)
                       in (True, None, b4\<lparr>version := version b4 + 1\<rparr>))
                 else (let ord = order_mem b a
                       in (case get_level (price ord) (is_buy ord) b of
                             None \<Rightarrow> (False, Some PriceLevelNotFound, b)
                           | Some L \<Rightarrow>
                               (let L' = L\<lparr>total_quantity :=
                                            total_quantity L - quantity ord + new_quantity\<rparr>;
                                    m' = (order_mem b)(a := ord\<lparr>quantity := new_quantity\<rparr>);
                                    b' = put_level (price ord) (is_buy ord) L' (b\<lparr>order_mem := m'\<rparr>)
                                in (True, None, b'\<lparr>version := version b' + 1\<rparr>)))))))"

subsection \<open>Queries\<close>

definition get_snapshot :: "nat \<Rightarrow> OrderBook \<Rightarrow> (double \<times> u64) list \<times> (double \<times> u64) list" where
  "get_snapshot depth b =
     (map (\<lambda>(k, L). (lvl_price L, total_quantity L)) (take depth (bids b)),
      map (\<lambda>(k, L). (lvl_price L, total_quantity L)) (take depth (asks b)))"

definition get_best_bid :: "OrderBook \<Rightarrow> double" where
  "get_best_bid b = (case bids b of [] \<Rightarrow> Finite 0 | (k, L) # _ \<Rightarrow> lvl_price L)"

definition get_best_ask :: "OrderBook \<Rightarrow> double" where
  "get_best_ask b = (case asks b of [] \<Rightarrow> DBL_MAX | (k, L) # _ \<Rightarrow> lvl_price L)"

definition get_spread :: "OrderBook \<Rightarrow> double" where
  "get_spread b =
     (let best_ask_price = get_best_ask b
      in if deq best_ask_price DBL_MAX then Finite 0 else dsub best_ask_price (get_best_bid b))"

definition get_version :: "OrderBook \<Rightarrow> u64" where
  "get_version b = version b"

definition get_order_count :: "OrderBook \<Rightarrow> nat" where
  "get_order_count b = length (order_lookup b)"

definition get_bid_levels :: "OrderBook \<Rightarrow> nat" where
  "get_bid_levels b = length (bids b)"

definition get_ask_levels :: "OrderBook \<Rightarrow> nat" where
  "get_ask_levels b = length (asks b)"

subsection \<open>A new book\<close>

text \<open>
  \<^verbatim>\<open>OrderBook::OrderBook()\<close>: both maps and the lookup empty, the pool with its first
  block and nothing handed out, every slot value-initialised.
\<close>

definition blank_order :: Order where
  "blank_order = \<lparr>order_id = 0, is_buy = False, price = Finite 0, quantity = 0,
                   timestamp_ns = 0, next = None, prev = None, is_active = True\<rparr>"

definition new_pool :: SimpleMemoryPool where
  "new_pool = \<lparr>current_block_index = 0, current_position = 0, free_list_head = None,
                free_link = (\<lambda>_. None)\<rparr>"

definition new_book :: OrderBook where
  "new_book = \<lparr>bids = [], asks = [], order_lookup = [], order_mem = (\<lambda>_. blank_order),
                order_pool = new_pool, matching_in_progress = False, version = 0\<rparr>"

text \<open>The constructor \<^verbatim>\<open>Order(id, buy, p, qty, ts)\<close>.\<close>

definition mk_order :: "u64 \<Rightarrow> bool \<Rightarrow> double \<Rightarrow> u64 \<Rightarrow> u64 \<Rightarrow> Order" where
  "mk_order i buy p q ts = \<lparr>order_id = i, is_buy = buy, price = p, quantity = q,
                            timestamp_ns = ts, next = None, prev = None, is_active = True\<rparr>"

subsection \<open>Call sequences\<close>

text \<open>
  A client such as \<^verbatim>\<open>main.cpp\<close> issues a sequence of calls against one book.  \<open>run\<close>
  performs them in order and collects what each call returned (and printed).
\<close>

datatype call = AddOrder Order | CancelOrder u64 | AmendOrder u64 double u64

datatype reply = Added add_outcome | Cancelled bool "diag option" | Amended bool "diag option"

fun run :: "call list \<Rightarrow> OrderBook \<Rightarrow> (reply list \<times> OrderBook) option" where
  "run [] b = Some ([], b)"
| "run (AddOrder ord # cs) b =
     (case add_order ord b of
        None \<Rightarrow> None
      | Some (r, b') \<Rightarrow> map_option (\<lambda>(rs, b''). (Added r # rs, b'')) (run cs b'))"
| "run (CancelOrder oid # cs) b =
     (case cancel_order oid b of
        (r, d, b') \<Rightarrow> map_option (\<lambda>(rs, b''). (Cancelled r d # rs, b'')) (run cs b'))"
| "run (AmendOrder oid p q # cs) b =
     (case amend_order oid p q b of
        (r, d, b') \<Rightarrow> map_option (\<lambda>(rs, b''). (Amended r d # rs, b'')) (run cs b'))"

section \<open>Properties the specification states\<close>

text \<open>
  The members of a level are the orders reached from \<open>first_order\<close> along \<open>next\<close>, at most
  \<open>order_count\<close> of them.
\<close>

fun level_queue :: "nat \<Rightarrow> (addr \<Rightarrow> Order) \<Rightarrow> addr option \<Rightarrow> addr list" where
  "level_queue 0 m p = []"
| "level_queue (Suc n) m p =
     (case p of None \<Rightarrow> [] | Some a \<Rightarrow> a # level_queue n m (next (m a)))"

definition level_members :: "(addr \<Rightarrow> Order) \<Rightarrow> InternalPriceLevel \<Rightarrow> addr list" where
  "level_members m L = level_queue (unat (order_count L)) m (first_order L)"

text \<open>The sum of the remaining quantities of the live members of a level.\<close>

definition members_quantity :: "(addr \<Rightarrow> Order) \<Rightarrow> InternalPriceLevel \<Rightarrow> nat" where
  "members_quantity m L =
     sum_list (map (\<lambda>a. unat (quantity (m a)))
                   (filter (\<lambda>a. is_active (m a)) (level_members m L)))"

text \<open>Invariant 1 of the specification, over every level of both sides.\<close>

definition aggregate_ok :: "OrderBook \<Rightarrow> bool" where
  "aggregate_ok b =
     list_all (\<lambda>(k, L). unat (total_quantity L) = members_quantity (order_mem b) L)
              (bids b @ asks b)"

text \<open>The book is crossed: both sides hold a level and the best bid is not below the best ask.\<close>

definition crossed :: "OrderBook \<Rightarrow> bool" where
  "crossed b = (bids b \<noteq> [] \<and> asks b \<noteq> [] \<and> \<not> dless (get_best_bid b) (get_best_ask b))"

text \<open>
  The engine's own view of crossing compares the keys of the two \<^verbatim>\<open>begin()\<close> entries;
  \<open>head_missing\<close> is the condition under which the loop of \<^verbatim>\<open>match_orders\<close> takes one
  of its defensive \<^verbatim>\<open>break\<close>s on a crossed book.
\<close>

definition keys_crossed :: "OrderBook \<Rightarrow> bool" where
  "keys_crossed b =
     (case bids b of
        [] \<Rightarrow> False
      | (bp, bl) # _ \<Rightarrow> (case asks b of [] \<Rightarrow> False | (ap, al) # _ \<Rightarrow> \<not> dless bp ap))"

definition head_missing :: "OrderBook \<Rightarrow> bool" where
  "head_missing b =
     (case bids b of
        [] \<Rightarrow> False
      | (bp, bl) # _ \<Rightarrow>
     (case asks b of
        [] \<Rightarrow> False
      | (ap, al) # _ \<Rightarrow>
          \<not> lvl_is_active bl \<or> \<not> lvl_is_active al \<or>
          (case first_order bl of
             None \<Rightarrow> True
           | Some x \<Rightarrow>
          (case first_order al of
             None \<Rightarrow> True
           | Some y \<Rightarrow> \<not> is_active (order_mem b x) \<or> \<not> is_active (order_mem b y)))))"

text \<open>A call that can bring the id \<open>oid\<close> into the book.\<close>

fun adds_id :: "u64 \<Rightarrow> call \<Rightarrow> bool" where
  "adds_id oid (AddOrder ord) = (order_id ord = oid)"
| "adds_id oid _ = False"

text \<open>
  The acceptance condition of \<^verbatim>\<open>add_order\<close> in the specification's words, with the price
  interval closed at both ends: a non-zero id that the lookup does not hold, a finite price
  between the two bounds, a quantity between one and the maximum.
\<close>

definition order_acceptable :: "Order \<Rightarrow> OrderBook \<Rightarrow> bool" where
  "order_acceptable ord b =
     (order_id ord \<noteq> 0 \<and>
      map_of (order_lookup b) (order_id ord) = None \<and>
      (case price ord of Finite r \<Rightarrow> 1 / 100 \<le> r \<and> r \<le> 1000000 | _ \<Rightarrow> False) \<and>
      1 \<le> unat (quantity ord) \<and> unat (quantity ord) \<le> 1000000)"

subsection \<open>Books used as concrete instances\<close>

text \<open>
  A resting sell at 100 and a buy at 101 placed after it, before the engine has run: once with
  equal timestamps, once with the buy stamped later.
\<close>

definition tie_book :: OrderBook where
  "tie_book = place_order (mk_order 2 True (Finite 101) 10 7)
                (place_order (mk_order 1 False (Finite 100) 10 7) new_book)"

definition late_buy_book :: OrderBook where
  "late_buy_book = place_order (mk_order 2 True (Finite 101) 10 9)
                     (place_order (mk_order 1 False (Finite 100) 10 5) new_book)"

subsection \<open>FIFO within a level\<close>

text \<open>
  \<open>is_queue m p h q\<close>: starting at pointer \<open>h\<close>, whose predecessor is \<open>p\<close>, the \<open>next\<close> links
  of the store \<open>m\<close> run through exactly the orders \<open>q\<close> and end in \<^verbatim>\<open>nullptr\<close>, and every
  \<open>prev\<close> link points back.
\<close>

fun is_queue :: "(addr \<Rightarrow> Order) \<Rightarrow> addr option \<Rightarrow> addr option \<Rightarrow> addr list \<Rightarrow> bool" where
  "is_queue m p h [] = (h = None)"
| "is_queue m p h (a # as) =
     (h = Some a \<and> prev (m a) = p \<and> is_queue m (Some a) (next (m a)) as)"

definition remaining :: "OrderBook \<Rightarrow> addr list \<Rightarrow> nat list" where
  "remaining b q = map (\<lambda>a. unat (quantity (order_mem b a))) q"

text \<open>
  The specification's FIFO rule on the list of remaining quantities of one level, oldest first,
  when an opposing order takes \<open>s\<close> units: \<open>fifo_fill\<close> is what is left of the orders still
  resting (filled orders leave the list), \<open>fifo_trades\<close> the quantities traded, in order.
\<close>

fun fifo_fill :: "nat \<Rightarrow> nat list \<Rightarrow> nat list" where
  "fifo_fill s [] = []"
| "fifo_fill s (x # xs) =
     (if s = 0 then x # xs else if x \<le> s then fifo_fill (s - x) xs else (x - s) # xs)"

fun fifo_trades :: "nat \<Rightarrow> nat list \<Rightarrow> nat list" where
  "fifo_trades s [] = []"
| "fifo_trades s (x # xs) =
     (if s = 0 then [] else if x < s then x # fifo_trades (s - x) xs else [s])"

text \<open>
  The situation the FIFO property speaks of, as the engine finds it right after an opposing
  order has been placed on a book whose best levels are well linked.  With \<open>buy\<close> the resting level is the best bid level and the opposing
  order a sell, without it the resting level is the best ask level and the opposing order a buy.
  The resting level's queue is \<open>q\<close>, all of it live with quantity left; the opposing order \<open>c\<close>
  is alone in the best level of the other side; the two levels cross; and the level behind the
  opposing order's, if there is one, does not cross the resting level.
\<close>

fun side_clear :: "bool \<Rightarrow> double \<Rightarrow> side_map \<Rightarrow> bool" where
  "side_clear buy k [] = True"
| "side_clear buy k ((k', L) # _) = (if buy then dless k k' else dless k' k)"

definition queue_ready :: "bool \<Rightarrow> OrderBook \<Rightarrow> addr list \<Rightarrow> addr \<Rightarrow> bool" where
  "queue_ready buy b q c =
     (case side_of buy b of
        [] \<Rightarrow> False
      | (kq, lq) # _ \<Rightarrow>
     (case side_of (\<not> buy) b of
        [] \<Rightarrow> False
      | (kc, lc) # rest \<Rightarrow>
          \<not> (if buy then dless kq kc else dless kc kq) \<and>
          lvl_is_active lq \<and> lvl_is_active lc \<and>
          is_queue (order_mem b) None (first_order lq) q \<and>
          unat (order_count lq) = length q \<and> distinct q \<and> c \<notin> set q \<and>
          list_all (\<lambda>a. is_active (order_mem b a) \<and> quantity (order_mem b a) \<noteq> 0) q \<and>
          first_order lc = Some c \<and> order_count lc = 1 \<and>
          prev (order_mem b c) = None \<and> next (order_mem b c) = None \<and>
          is_active (order_mem b c) \<and> quantity (order_mem b c) \<noteq> 0 \<and>
          side_clear buy kq rest))"

definition maker_id :: "bool \<Rightarrow> Trade \<Rightarrow> u64" where
  "maker_id buy t = (if buy then bid_id t else ask_id t)"

definition taker_id :: "bool \<Rightarrow> Trade \<Rightarrow> u64" where
  "taker_id buy t = (if buy then ask_id t else bid_id t)"

text \<open>
  What FIFO demands of the book \<open>b'\<close> and the trades \<open>ts\<close> that the engine produces from \<open>b\<close>:
  the opposing order's level is gone, the resting side has the same prices, the resting level's
  queue is the tail of \<open>q\<close> that \<open>fifo_fill\<close> leaves, with exactly those quantities, and the
  trades are those of \<open>fifo_trades\<close>, against the orders of \<open>q\<close> from the front.
\<close>

definition fifo_outcome ::
  "bool \<Rightarrow> OrderBook \<Rightarrow> addr list \<Rightarrow> addr \<Rightarrow> Trade list \<Rightarrow> OrderBook \<Rightarrow> bool" where
  "fifo_outcome buy b q c ts b' =
     (let s = unat (quantity (order_mem b c));
          r = fifo_fill s (remaining b q);
          q' = drop (length q - length r) q
      in side_of (\<not> buy) b' = tl (side_of (\<not> buy) b) \<and>
         map fst (side_of buy b') = map fst (side_of buy b) \<and>
         tl (side_of buy b') = tl (side_of buy b) \<and>
         is_queue (order_mem b') None (first_order (snd (hd (side_of buy b')))) q' \<and>
         remaining b' q' = r \<and>
         map (\<lambda>t. unat (match_quantity t)) ts = fifo_trades s (remaining b q) \<and>
         map (maker_id buy) ts = map (\<lambda>a. order_id (order_mem b a)) (take (length ts) q) \<and>
         list_all (\<lambda>t. taker_id buy t = order_id (order_mem b c)) ts)"

text \<open>
  Scenario 3 of the specification just before the engine runs: three buys at 100 of 100, 200
  and 150, and a sell of 250 at 100 placed after them.  And its mirror image: three sells and
  a buy.
\<close>

definition fifo_book :: OrderBook where
  "fifo_book =
     place_order (mk_order 4 False (Finite 100) 250 1003)
       (place_order (mk_order 3 True (Finite 100) 150 1002)
         (place_order (mk_order 2 True (Finite 100) 200 1001)
           (place_order (mk_order 1 True (Finite 100) 100 1000) new_book)))"

definition fifo_ask_book :: OrderBook where
  "fifo_ask_book =
     place_order (mk_order 4 True (Finite 100) 250 1003)
       (place_order (mk_order 3 False (Finite 100) 150 1002)
         (place_order (mk_order 2 False (Finite 100) 200 1001)
           (place_order (mk_order 1 False (Finite 100) 100 1000) new_book)))"

section \<open>The loop of \<open>match_orders\<close>\<close>

text \<open>
  A property that every pass preserves holds when the loop has left, and the loop only leaves
  on a book on which a pass does nothing.
\<close>

lemma match_loop_invariant:
  assumes step: "\<And>b t b1. I b \<Longrightarrow> match_step b = Some (t, b1) \<Longrightarrow> I b1"
    and run: "match_loop acc b = Some y"
  shows "I b \<longrightarrow> I (snd y) \<and> match_step (snd y) = None"
proof (rule match_loop.raw_induct
    [where P = "\<lambda>acc b y. I b \<longrightarrow> I (snd y) \<and> match_step (snd y) = None", OF _ run])
  fix loop :: "Trade list \<Rightarrow> OrderBook \<Rightarrow> (Trade list \<times> OrderBook) option"
    and acc b y
  assume IH: "\<And>acc b y. loop acc b = Some y \<Longrightarrow>
                I b \<longrightarrow> I (snd y) \<and> match_step (snd y) = None"
    and eq: "(case match_step b of None \<Rightarrow> Some (rev acc, b)
              | Some (t, b') \<Rightarrow> loop (t # acc) b') = Some y"
  show "I b \<longrightarrow> I (snd y) \<and> match_step (snd y) = None"
  proof (cases "match_step b")
    case None
    with eq show ?thesis by auto
  next
    case (Some p)
    obtain t b1 where p: "p = (t, b1)" by (cases p)
    from eq Some p have "loop (t # acc) b1 = Some y" by simp
    from IH [OF this] step Some p show ?thesis by auto
  qed
qed

lemma match_step_None_iff:
  "match_step b = None \<longleftrightarrow> \<not> keys_crossed b \<or> head_missing b"
  by (auto simp: match_step_def keys_crossed_def head_missing_def Let_def
           split: list.splits prod.splits option.splits)

lemma settled_flag:
  "keys_crossed (b\<lparr>matching_in_progress := f\<rparr>) = keys_crossed b"
  "head_missing (b\<lparr>matching_in_progress := f\<rparr>) = head_missing b"
  by (simp_all add: keys_crossed_def head_missing_def
        cong: list.case_cong prod.case_cong option.case_cong)

lemma matching_in_progress_set_side:
  "matching_in_progress (set_side buy s b) = matching_in_progress b"
  by (simp add: set_side_def)

lemma matching_in_progress_place_order:
  "matching_in_progress (place_order ord b) = matching_in_progress b"
  by (simp add: place_order_def Let_def case_prod_beta put_level_def get_or_create_level_def
        matching_in_progress_set_side split: option.splits)

lemma match_loop_leaves:
  assumes "match_loop acc b = Some (ts, b')"
  shows "match_step b' = None"
proof -
  have "True \<longrightarrow> True \<and> match_step (snd (ts, b')) = None"
    by (rule match_loop_invariant [where I = "\<lambda>_. True", OF _ assms]) simp
  then show ?thesis by simp
qed

text \<open>
  What does hold after an accepted \<^verbatim>\<open>add_order\<close>: the keys of the two best levels do not
  cross, or the loop left at one of its guards.
\<close>

lemma add_order_settles:
  assumes "add_order ord b = Some (Accepted ts, b')" and "\<not> matching_in_progress b"
  shows "\<not> keys_crossed b' \<or> head_missing b'"
proof -
  from assms(1) have run: "match_orders (place_order ord b) = Some (ts, b')"
    by (auto simp: add_order_def split: if_splits option.splits)
  with assms(2) obtain b1 where
    loop: "match_loop [] ((place_order ord b)\<lparr>matching_in_progress := True\<rparr>) = Some (ts, b1)"
    and b': "b' = b1\<lparr>matching_in_progress := False\<rparr>"
    by (auto simp: match_orders_def matching_in_progress_place_order split: option.splits)
  from match_loop_leaves [OF loop] have "\<not> keys_crossed b1 \<or> head_missing b1"
    by (simp add: match_step_None_iff)
  with b' show ?thesis by (simp add: settled_flag)
qed

text \<open>
  The trades \<^verbatim>\<open>add_order\<close> reports are those of the passes of the loop, in order, on the
  book with the order placed: the first one comes from a pass on that very book.
\<close>

lemma match_loop_trades:
  assumes run: "match_loop acc b = Some y"
  shows "\<exists>ts'. fst y = rev acc @ ts' \<and>
           (ts' \<noteq> [] \<longrightarrow> (\<exists>b1. match_step b = Some (hd ts', b1)))"
proof (rule match_loop.raw_induct
    [where P = "\<lambda>acc b y. \<exists>ts'. fst y = rev acc @ ts' \<and>
                   (ts' \<noteq> [] \<longrightarrow> (\<exists>b1. match_step b = Some (hd ts', b1)))", OF _ run])
  fix loop :: "Trade list \<Rightarrow> OrderBook \<Rightarrow> (Trade list \<times> OrderBook) option"
    and acc b y
  assume IH: "\<And>acc b y. loop acc b = Some y \<Longrightarrow>
                \<exists>ts'. fst y = rev acc @ ts' \<and>
                   (ts' \<noteq> [] \<longrightarrow> (\<exists>b1. match_step b = Some (hd ts', b1)))"
    and eq: "(case match_step b of None \<Rightarrow> Some (rev acc, b)
              | Some (t, b') \<Rightarrow> loop (t # acc) b') = Some y"
  show "\<exists>ts'. fst y = rev acc @ ts' \<and>
          (ts' \<noteq> [] \<longrightarrow> (\<exists>b1. match_step b = Some (hd ts', b1)))"
  proof (cases "match_step b")
    case None
    with eq show ?thesis by auto
  next
    case (Some p)
    obtain t b1 where p: "p = (t, b1)" by (cases p)
    from eq Some p have "loop (t # acc) b1 = Some y" by simp
    from IH [OF this] obtain ts1 where "fst y = rev (t # acc) @ ts1" by blast
    then have "fst y = rev acc @ (t # ts1)" by simp
    with Some p show ?thesis by (intro exI [of _ "t # ts1"]) simp
  qed
qed

lemma add_order_first_trade:
  assumes "add_order ord b = Some (Accepted (t # ts), b')" and "\<not> matching_in_progress b"
  shows "\<exists>b1. match_step ((place_order ord b)\<lparr>matching_in_progress := True\<rparr>) = Some (t, b1)"
proof -
  from assms(1) have run: "match_orders (place_order ord b) = Some (t # ts, b')"
    by (auto simp: add_order_def split: if_splits option.splits)
  with assms(2) obtain b1 where
    loop: "match_loop [] ((place_order ord b)\<lparr>matching_in_progress := True\<rparr>) = Some (t # ts, b1)"
    by (auto simp: match_orders_def matching_in_progress_place_order split: option.splits)
  from match_loop_trades [OF loop] show ?thesis by auto
qed

section \<open>Cancelling twice\<close>

lemma order_lookup_set_side: "order_lookup (set_side buy s b) = order_lookup b"
  by (simp add: set_side_def)

lemma order_lookup_unlink: "order_lookup (unlink_from_level a b) = order_lookup b"
  by (simp add: unlink_from_level_def put_level_def remove_price_level_def order_lookup_set_side
        Let_def split: option.splits prod.splits)

lemma cancel_order_absent:
  "map_of (order_lookup b) oid = None \<Longrightarrow>
   cancel_order oid b = (False, Some (if oid = 0 then InvalidOrderId else OrderNotFound), b)"
  by (simp add: cancel_order_def)

lemma cancel_order_erases:
  "oid \<noteq> 0 \<Longrightarrow> map_of (order_lookup (snd (snd (cancel_order oid b)))) oid = None"
  by (simp add: cancel_order_def Let_def order_lookup_unlink delete_conv' split: option.splits)

lemma absent_remove_filled_order:
  "map_of (order_lookup b) oid = None \<Longrightarrow>
   map_of (order_lookup (snd (remove_filled_order a buy b))) oid = None"
  by (simp add: remove_filled_order_def order_lookup_set_side Let_def delete_conv'
           split: list.splits prod.splits)

lemma absent_match_step:
  "match_step b = Some (t, b') \<Longrightarrow> map_of (order_lookup b) oid = None \<Longrightarrow>
   map_of (order_lookup b') oid = None"
  by (auto simp: match_step_def Let_def absent_remove_filled_order
           split: list.splits prod.splits option.splits if_splits
           dest!: arg_cong [where f = snd])

lemma absent_match_orders:
  assumes "match_orders b = Some (ts, b')" and "map_of (order_lookup b) oid = None"
  shows "map_of (order_lookup b') oid = None"
proof (cases "matching_in_progress b")
  case True
  with assms show ?thesis by (simp add: match_orders_def)
next
  case False
  with assms(1) obtain b1 where run: "match_loop [] (b\<lparr>matching_in_progress := True\<rparr>) = Some (ts, b1)"
    and b': "b' = b1\<lparr>matching_in_progress := False\<rparr>"
    by (auto simp: match_orders_def split: option.splits)
  have "map_of (order_lookup (snd (ts, b1))) oid = None \<and> match_step (snd (ts, b1)) = None"
    using match_loop_invariant [where I = "\<lambda>b. map_of (order_lookup b) oid = None", OF _ run]
      absent_match_step assms(2)
    by fastforce
  with b' show ?thesis by simp
qed

lemma order_lookup_get_or_create_level:
  "order_lookup (snd (get_or_create_level p buy b)) = order_lookup b"
  by (simp add: get_or_create_level_def order_lookup_set_side split: option.splits)

lemma order_lookup_place_order:
  "order_lookup (place_order ord b) = AList.update (order_id ord) (fst (allocate (order_pool b))) (order_lookup b)"
  by (simp add: place_order_def Let_def put_level_def order_lookup_set_side
        get_or_create_level_def split: prod.splits option.splits)

lemma absent_add_order:
  assumes "add_order ord b = Some (r, b')" and "map_of (order_lookup b) oid = None"
    and "order_id ord \<noteq> oid"
  shows "map_of (order_lookup b') oid = None"
proof (cases r)
  case (Rejected d)
  with assms show ?thesis
    by (auto simp: add_order_def split: if_splits option.splits)
next
  case (Accepted ts)
  with assms(1) have run: "match_orders (place_order ord b) = Some (ts, b')"
    by (auto simp: add_order_def split: if_splits option.splits)
  from assms(2,3) have "map_of (order_lookup (place_order ord b)) oid = None"
    by (simp add: order_lookup_place_order update_conv')
  with run show ?thesis by (rule absent_match_orders)
qed

lemma absent_cancel_order:
  "map_of (order_lookup b) oid = None \<Longrightarrow>
   map_of (order_lookup (snd (snd (cancel_order k b)))) oid = None"
  by (simp add: cancel_order_def Let_def order_lookup_unlink delete_conv' split: option.splits)

lemma order_lookup_amend_order:
  "order_lookup (snd (snd (amend_order k p q b))) = order_lookup b"
  by (simp add: amend_order_def Let_def order_lookup_unlink put_level_def order_lookup_set_side
        get_or_create_level_def split: option.splits prod.splits)

lemma absent_run:
  "run cs b = Some (rs, b') \<Longrightarrow> map_of (order_lookup b) oid = None \<Longrightarrow>
   list_all (\<lambda>c. \<not> adds_id oid c) cs \<Longrightarrow> map_of (order_lookup b') oid = None"
proof (induction cs arbitrary: b rs)
  case Nil
  then show ?case by simp
next
  case (Cons c cs)
  show ?case
  proof (cases c)
    case (AddOrder ord)
    with Cons.prems obtain r b1 rs1 where a: "add_order ord b = Some (r, b1)"
      and r: "run cs b1 = Some (rs1, b')"
      by (auto split: option.splits)
    from Cons.prems AddOrder have "order_id ord \<noteq> oid" by simp
    with absent_add_order [OF a Cons.prems(2)] have "map_of (order_lookup b1) oid = None"
      by simp
    with r Cons.prems(3) show ?thesis by (auto intro: Cons.IH)
  next
    case (CancelOrder k)
    with Cons.prems obtain rs1 where r: "run cs (snd (snd (cancel_order k b))) = Some (rs1, b')"
      by (auto split: prod.splits)
    with absent_cancel_order [OF Cons.prems(2), of k] Cons.prems(3) show ?thesis
      by (auto intro: Cons.IH)
  next
    case (AmendOrder k p q)
    with Cons.prems obtain rs1 where r: "run cs (snd (snd (amend_order k p q b))) = Some (rs1, b')"
      by (auto split: prod.splits)
    with Cons.prems(2,3) show ?thesis
      by (auto intro: Cons.IH simp: order_lookup_amend_order)
  qed
qed

text \<open>
  Claim C9.  After \<^verbatim>\<open>cancel_order(id)\<close>, whatever it returned, and after any further calls
  none of which adds an order with that id (in particular after none at all), another
  \<^verbatim>\<open>cancel_order(id)\<close> returns false and returns the book it was given: version, lookup
  (hence the order count), both side maps and the order memory are the same before and after.
\<close>

theorem cancel_order_twice:
  assumes "run cs (snd (snd (cancel_order oid b))) = Some (rs, b')"
    and "list_all (\<lambda>c. \<not> adds_id oid c) cs"
  shows "cancel_order oid b' =
           (False, Some (if oid = 0 then InvalidOrderId else OrderNotFound), b')"
proof (cases "oid = 0")
  case True
  then show ?thesis by (simp add: cancel_order_def)
next
  case False
  from absent_run [OF assms(1) cancel_order_erases [OF False] assms(2)]
  show ?thesis by (rule cancel_order_absent)
qed

lemma cancel_twice_run:
  "map_option fst
     (run [AddOrder (mk_order 2 True (Finite 99) 5 2), AmendOrder 2 (Finite 98) 5]
        (snd (snd (cancel_order 1 (place_order (mk_order 1 True (Finite 100) 10 1) new_book))))) =
   Some [Added (Accepted []), Amended True None]"
  "fst (cancel_order 1 (place_order (mk_order 1 True (Finite 100) 10 1) new_book))"
  by code_simp+

theorem cancel_order_twice_witness:
  "fst (cancel_order 1 (place_order (mk_order 1 True (Finite 100) 10 1) new_book)) \<and>
   list_all (\<lambda>c. \<not> adds_id 1 c)
     [AddOrder (mk_order 2 True (Finite 99) 5 2), AmendOrder 2 (Finite 98) 5] \<and>
   (\<exists>rs b'. run [AddOrder (mk_order 2 True (Finite 99) 5 2), AmendOrder 2 (Finite 98) 5]
               (snd (snd (cancel_order 1
                  (place_order (mk_order 1 True (Finite 100) 10 1) new_book)))) = Some (rs, b') \<and>
            cancel_order 1 b' = (False, Some OrderNotFound, b'))"
proof -
  let ?cs = "[AddOrder (mk_order 2 True (Finite 99) 5 2), AmendOrder 2 (Finite 98) 5]"
  let ?b = "place_order (mk_order 1 True (Finite 100) 10 1) new_book"
  have ok: "list_all (\<lambda>c. \<not> adds_id 1 c) ?cs"
    by (simp add: mk_order_def)
  from cancel_twice_run(1) obtain rs b' where
    run: "run ?cs (snd (snd (cancel_order 1 ?b))) = Some (rs, b')"
    by fastforce
  from cancel_order_twice [OF run ok] have "cancel_order 1 b' = (False, Some OrderNotFound, b')"
    by simp
  with run have "\<exists>rs b'. run ?cs (snd (snd (cancel_order 1 ?b))) = Some (rs, b') \<and>
            cancel_order 1 b' = (False, Some OrderNotFound, b')"
    by (intro exI conjI)
  with cancel_twice_run(2) ok show ?thesis by (intro conjI)
qed

section \<open>Trade price\<close>

lemma tie_book_bids:
  "bids tie_book = [(Finite 101, \<lparr>lvl_price = Finite 101, total_quantity = 10,
      first_order = Some 1, last_order = Some 1, order_count = 1, lvl_is_active = True\<rparr>)]"
  by code_simp

lemma tie_book_asks:
  "asks tie_book = [(Finite 100, \<lparr>lvl_price = Finite 100, total_quantity = 10,
      first_order = Some 0, last_order = Some 0, order_count = 1, lvl_is_active = True\<rparr>)]"
  by code_simp

lemma tie_book_mem:
  "timestamp_ns (order_mem tie_book 1) = timestamp_ns (order_mem tie_book 0)"
  "price (order_mem tie_book 1) = Finite 101"
  "price (order_mem tie_book 0) = Finite 100"
  by code_simp+

lemma tie_book_step:
  "map_option fst (match_step tie_book) =
     Some \<lparr>match_quantity = 10, match_price = Finite 101, bid_id = 2, ask_id = 1\<rparr>"
  by code_simp

lemma late_buy_book_bids:
  "bids late_buy_book = [(Finite 101, \<lparr>lvl_price = Finite 101, total_quantity = 10,
      first_order = Some 1, last_order = Some 1, order_count = 1, lvl_is_active = True\<rparr>)]"
  by code_simp

lemma late_buy_book_asks:
  "asks late_buy_book = [(Finite 100, \<lparr>lvl_price = Finite 100, total_quantity = 10,
      first_order = Some 0, last_order = Some 0, order_count = 1, lvl_is_active = True\<rparr>)]"
  by code_simp

lemma late_buy_book_mem:
  "timestamp_ns (order_mem late_buy_book 0) < timestamp_ns (order_mem late_buy_book 1)"
  "price (order_mem late_buy_book 1) = Finite 101"
  "price (order_mem late_buy_book 0) = Finite 100"
  by code_simp+

lemma late_buy_book_step:
  "map_option fst (match_step late_buy_book) =
     Some \<lparr>match_quantity = 10, match_price = Finite 100, bid_id = 2, ask_id = 1\<rparr>"
  by code_simp

text \<open>
  Claim C10.  In a pass of the matching loop that trades, when the head order of the best bid
  level and the head order of the best ask level carry the same timestamp, the trade price is
  the bid head's price.  \<open>match_step\<close> is a function of the book, so the choice is the same
  every time the book is in that state.
\<close>

theorem match_price_tie_uses_bid:
  assumes "match_step b = Some (t, b')"
    and "bids b = (bp, bl) # bs" and "asks b = (ap, al) # as"
    and "first_order bl = Some bo" and "first_order al = Some ao"
    and "timestamp_ns (order_mem b bo) = timestamp_ns (order_mem b ao)"
  shows "match_price t = price (order_mem b bo)"
  using assms
  by (auto simp: match_step_def Let_def split: if_splits prod.splits)

theorem match_price_tie_uses_bid_witness:
  "\<exists>t b'. match_step tie_book = Some (t, b') \<and> match_price t = Finite 101"
proof -
  obtain t b' where s: "match_step tie_book = Some (t, b')"
    using tie_book_step by fastforce
  have "match_price t = price (order_mem tie_book 1)"
    using match_price_tie_uses_bid [OF s tie_book_bids tie_book_asks, of 1 0] tie_book_mem(1)
    by simp
  with s tie_book_mem(2) show ?thesis by simp
qed

text \<open>
  Claim C5, as stated, fails: timestamps are the caller's, and \<^verbatim>\<open>add_order\<close> does not
  compare them with those of resting orders.  A sell of 10 at 100 stamped 5 rests; a buy of 10
  at 101 stamped 3 arrives.  The one trade is printed at 101, the incoming order's own price,
  not at the resting order's 100.
\<close>

theorem incoming_trades_at_own_price:
  "map_option fst
     (run [AddOrder (mk_order 1 False (Finite 100) 10 5),
           AddOrder (mk_order 2 True (Finite 101) 10 3)] new_book) =
   Some [Added (Accepted []),
         Added (Accepted [\<lparr>match_quantity = 10, match_price = Finite 101,
                           bid_id = 2, ask_id = 1\<rparr>])]"
  by code_simp

text \<open>
  Claim C5, amended.  In a pass of the matching loop that trades, if the two head orders carry
  different timestamps, the trade price is the price of the head with the earlier one.  So an
  incoming order that is one of the heads trades at the resting head's price whenever its
  timestamp is the later of the two.  (The first trade of an \<^verbatim>\<open>add_order\<close> is the trade of
  a pass on the book with the order placed, \<open>add_order_first_trade\<close>.)
\<close>

theorem match_price_earlier_timestamp:
  assumes "match_step b = Some (t, b')"
    and "bids b = (bp, bl) # bs" and "asks b = (ap, al) # as"
    and "first_order bl = Some bo" and "first_order al = Some ao"
  shows "(timestamp_ns (order_mem b bo) < timestamp_ns (order_mem b ao) \<longrightarrow>
            match_price t = price (order_mem b bo)) \<and>
         (timestamp_ns (order_mem b ao) < timestamp_ns (order_mem b bo) \<longrightarrow>
            match_price t = price (order_mem b ao))"
  using assms
  by (auto simp: match_step_def Let_def split: if_splits prod.splits)

theorem match_price_earlier_timestamp_witness:
  "\<exists>t b'. match_step late_buy_book = Some (t, b') \<and>
          timestamp_ns (order_mem late_buy_book 0) < timestamp_ns (order_mem late_buy_book 1) \<and>
          match_price t = Finite 100"
proof -
  obtain t b' where s: "match_step late_buy_book = Some (t, b')"
    using late_buy_book_step by fastforce
  have "match_price t = price (order_mem late_buy_book 0)"
    using match_price_earlier_timestamp [OF s late_buy_book_bids late_buy_book_asks, of 1 0]
      late_buy_book_mem(1)
    by simp
  with s late_buy_book_mem(1,3) show ?thesis by simp
qed

section \<open>Validation in \<open>add_order\<close>\<close>

lemma price_rejected_iff:
  "price_rejected p = (\<not> (case p of Finite r \<Rightarrow> 1 / 100 \<le> r \<and> r \<le> 1000000 | _ \<Rightarrow> False))"
  by (cases p) (auto simp: price_rejected_def MIN_PRICE_def MAX_PRICE_def isnan_def isinf_def)

lemma quantity_rejected_iff:
  "quantity_rejected q = (\<not> (1 \<le> unat q \<and> unat q \<le> 1000000))"
proof -
  have "(q = 0) = (unat q = 0)"
    by (simp add: unat_eq_0)
  moreover have "(MAX_ORDER_QUANTITY < q) = (1000000 < unat q)"
    by (simp add: MAX_ORDER_QUANTITY_def word_less_nat_alt)
  ultimately show ?thesis
    by (auto simp: quantity_rejected_def)
qed

text \<open>
  Claim C8, as stated, fails at the lower price bound: the test is
  \<^verbatim>\<open>o.price < MIN_PRICE\<close>, so a price equal to \<^verbatim>\<open>MIN_PRICE\<close>, which is outside the
  half-open interval, is accepted.
\<close>

theorem min_price_accepted:
  "\<not> dless MIN_PRICE (price (mk_order 1 True MIN_PRICE 10 1)) \<and>
   map_option fst (add_order (mk_order 1 True MIN_PRICE 10 1) new_book) = Some (Accepted [])"
  by code_simp

text \<open>
  Claim C8, amended.  \<^verbatim>\<open>add_order\<close> accepts an order (places it and runs the matching
  engine) if and only if its id is non-zero and not in the order lookup, its price is finite and
  lies in the closed interval from \<^verbatim>\<open>MIN_PRICE\<close> to \<^verbatim>\<open>MAX_PRICE\<close>, and its quantity
  lies between 1 and \<^verbatim>\<open>MAX_ORDER_QUANTITY\<close>; otherwise it returns the book unchanged
  together with one diagnostic.
\<close>

theorem add_order_accepts_iff:
  "(order_acceptable ord b \<longrightarrow>
      add_order ord b = (case match_orders (place_order ord b) of
                           None \<Rightarrow> None
                         | Some (ts, b') \<Rightarrow> Some (Accepted ts, b'))) \<and>
   (\<not> order_acceptable ord b \<longrightarrow> (\<exists>d. add_order ord b = Some (Rejected d, b)))"
  by (auto simp: add_order_def order_acceptable_def price_rejected_iff quantity_rejected_iff)

theorem add_order_accepts_iff_witness:
  "order_acceptable (mk_order 1 True MAX_PRICE 1000000 1) new_book \<and>
   map_option fst (add_order (mk_order 1 True MAX_PRICE 1000000 1) new_book) =
     map_option (Accepted \<circ> fst)
       (match_orders (place_order (mk_order 1 True MAX_PRICE 1000000 1) new_book)) \<and>
   \<not> order_acceptable (mk_order 1 True (Finite (1 / 200)) 10 1) new_book \<and>
   (\<exists>d. add_order (mk_order 1 True (Finite (1 / 200)) 10 1) new_book = Some (Rejected d, new_book))"
proof -
  have a: "order_acceptable (mk_order 1 True MAX_PRICE 1000000 1) new_book"
    by (simp add: order_acceptable_def mk_order_def new_book_def MAX_PRICE_def)
  have r: "\<not> order_acceptable (mk_order 1 True (Finite (1 / 200)) 10 1) new_book"
    by (simp add: order_acceptable_def mk_order_def new_book_def)
  from a add_order_accepts_iff [of "mk_order 1 True MAX_PRICE 1000000 1" new_book]
  have "map_option fst (add_order (mk_order 1 True MAX_PRICE 1000000 1) new_book) =
     map_option (Accepted \<circ> fst)
       (match_orders (place_order (mk_order 1 True MAX_PRICE 1000000 1) new_book))"
    by (simp split: option.splits prod.splits)
  moreover from r add_order_accepts_iff [of "mk_order 1 True (Finite (1 / 200)) 10 1" new_book]
  have "\<exists>d. add_order (mk_order 1 True (Finite (1 / 200)) 10 1) new_book = Some (Rejected d, new_book)"
    by simp
  ultimately show ?thesis
    using a r by simp
qed

section \<open>Rejected calls\<close>

lemma add_order_rejected_unchanged:
  "add_order ord b = Some (Rejected d, b') \<Longrightarrow> b' = b"
  by (auto simp: add_order_def split: if_splits option.splits)

lemma amend_order_rejected_unchanged:
  "amend_order oid p q b = (False, d, b') \<Longrightarrow> b' = b"
  by (auto simp: amend_order_def Let_def split: if_splits option.splits prod.splits)

lemma cancel_order_rejected_sides:
  "cancel_order oid b = (False, d, b') \<Longrightarrow>
   bids b' = bids b \<and> asks b' = asks b \<and> version b' = version b \<and> order_mem b' = order_mem b \<and>
   order_lookup b' = (if oid = 0 then order_lookup b else AList.delete oid (order_lookup b))"
  by (auto simp: cancel_order_def Let_def map_of_eq_None_iff
           intro: delete_id [symmetric] split: if_splits option.splits)

section \<open>FIFO within a level\<close>

subsection \<open>Queues in the store\<close>

lemma is_queue_links:
  "(\<And>x. x \<in> set q \<Longrightarrow> prev (m' x) = prev (m x) \<and> next (m' x) = next (m x)) \<Longrightarrow>
   is_queue m' p h q = is_queue m p h q"
  by (induction q arbitrary: p h) auto

lemma is_queue_frame:
  "(\<And>x. x \<in> set q \<Longrightarrow> m' x = m x) \<Longrightarrow> is_queue m' p h q = is_queue m p h q"
  by (rule is_queue_links) simp

lemma remaining_frame:
  "(\<And>x. x \<in> set q \<Longrightarrow> quantity (order_mem b' x) = quantity (order_mem b x)) \<Longrightarrow>
   remaining b' q = remaining b q"
  by (simp add: remaining_def)

lemma fifo_fill_zero: "fifo_fill 0 xs = xs"
  by (cases xs) simp_all

lemma length_fifo_fill: "length (fifo_fill s xs) \<le> length xs"
  by (induction xs arbitrary: s) (auto simp: le_SucI)

lemma queue_ready_bidE:
  assumes "queue_ready True b q c"
  obtains bp bl brest ap al arest where
    "bids b = (bp, bl) # brest" "asks b = (ap, al) # arest"
    "\<not> dless bp ap" "lvl_is_active bl" "lvl_is_active al"
    "is_queue (order_mem b) None (first_order bl) q" "unat (order_count bl) = length q"
    "distinct q" "c \<notin> set q"
    "\<And>x. x \<in> set q \<Longrightarrow> is_active (order_mem b x) \<and> quantity (order_mem b x) \<noteq> 0"
    "first_order al = Some c" "order_count al = 1"
    "prev (order_mem b c) = None" "next (order_mem b c) = None"
    "is_active (order_mem b c)" "quantity (order_mem b c) \<noteq> 0"
    "side_clear True bp arest"
proof (cases "bids b")
  case Nil
  with assms show ?thesis by (simp add: queue_ready_def side_of_def)
next
  case bc: (Cons be brest)
  show ?thesis
  proof (cases "asks b")
    case Nil
    with assms bc show ?thesis by (simp add: queue_ready_def side_of_def split: prod.splits)
  next
    case ac: (Cons ae arest)
    obtain bp bl where be: "be = (bp, bl)" by (cases be)
    obtain ap al where ae: "ae = (ap, al)" by (cases ae)
    from assms bc ac be ae show ?thesis
      by (intro that [of bp bl brest ap al arest])
         (simp_all add: queue_ready_def side_of_def list_all_iff)
  qed
qed

lemma queue_ready_bidI:
  assumes "bids b = (bp, bl) # brest" "asks b = (ap, al) # arest"
    "\<not> dless bp ap" "lvl_is_active bl" "lvl_is_active al"
    "is_queue (order_mem b) None (first_order bl) q" "unat (order_count bl) = length q"
    "distinct q" "c \<notin> set q"
    "\<And>x. x \<in> set q \<Longrightarrow> is_active (order_mem b x) \<and> quantity (order_mem b x) \<noteq> 0"
    "first_order al = Some c" "order_count al = 1"
    "prev (order_mem b c) = None" "next (order_mem b c) = None"
    "is_active (order_mem b c)" "quantity (order_mem b c) \<noteq> 0"
    "side_clear True bp arest"
  shows "queue_ready True b q c"
  using assms
  by (simp add: queue_ready_def side_of_def list_all_iff)

lemma queue_ready_askE:
  assumes "queue_ready False b q c"
  obtains bp bl brest ap al arest where
    "bids b = (bp, bl) # brest" "asks b = (ap, al) # arest"
    "\<not> dless bp ap" "lvl_is_active bl" "lvl_is_active al"
    "is_queue (order_mem b) None (first_order al) q" "unat (order_count al) = length q"
    "distinct q" "c \<notin> set q"
    "\<And>x. x \<in> set q \<Longrightarrow> is_active (order_mem b x) \<and> quantity (order_mem b x) \<noteq> 0"
    "first_order bl = Some c" "order_count bl = 1"
    "prev (order_mem b c) = None" "next (order_mem b c) = None"
    "is_active (order_mem b c)" "quantity (order_mem b c) \<noteq> 0"
    "side_clear False ap brest"
proof (cases "bids b")
  case Nil
  with assms show ?thesis
    by (simp add: queue_ready_def side_of_def split: list.splits prod.splits)
next
  case bc: (Cons be brest)
  show ?thesis
  proof (cases "asks b")
    case Nil
    with assms bc show ?thesis by (simp add: queue_ready_def side_of_def)
  next
    case ac: (Cons ae arest)
    obtain bp bl where be: "be = (bp, bl)" by (cases be)
    obtain ap al where ae: "ae = (ap, al)" by (cases ae)
    from assms bc ac be ae show ?thesis
      by (intro that [of bp bl brest ap al arest])
         (simp_all add: queue_ready_def side_of_def list_all_iff)
  qed
qed

lemma queue_ready_askI:
  assumes "bids b = (bp, bl) # brest" "asks b = (ap, al) # arest"
    "\<not> dless bp ap" "lvl_is_active bl" "lvl_is_active al"
    "is_queue (order_mem b) None (first_order al) q" "unat (order_count al) = length q"
    "distinct q" "c \<notin> set q"
    "\<And>x. x \<in> set q \<Longrightarrow> is_active (order_mem b x) \<and> quantity (order_mem b x) \<noteq> 0"
    "first_order bl = Some c" "order_count bl = 1"
    "prev (order_mem b c) = None" "next (order_mem b c) = None"
    "is_active (order_mem b c)" "quantity (order_mem b c) \<noteq> 0"
    "side_clear False ap brest"
  shows "queue_ready False b q c"
  using assms
  by (simp add: queue_ready_def side_of_def list_all_iff)

subsection \<open>One pass of the loop on two live heads\<close>

lemma level_remove_order_head:
  assumes "is_active (m a)" "prev (m a) = None"
  shows "level_remove_order a L m =
     (let m1 = m(a := (m a)\<lparr>is_active := False\<rparr>)
      in (case next (m a) of
            None \<Rightarrow> (L\<lparr>first_order := None, last_order := None,
                        total_quantity := total_quantity L - quantity (m a),
                        order_count := order_count L - 1\<rparr>, m1)
          | Some n \<Rightarrow> (L\<lparr>first_order := Some n,
                        total_quantity := total_quantity L - quantity (m a),
                        order_count := order_count L - 1\<rparr>,
                       m1(n := (m1 n)\<lparr>prev := None\<rparr>))))"
  using assms by (simp add: level_remove_order_def Let_def split: option.splits)

lemma match_step_heads:
  assumes "bids b = (bp, bl) # brest" "asks b = (ap, al) # arest" "\<not> dless bp ap"
    "lvl_is_active bl" "lvl_is_active al" "first_order bl = Some a" "first_order al = Some c"
    "is_active (order_mem b a)" "is_active (order_mem b c)" "a \<noteq> c"
  shows "match_step b =
     (let m = order_mem b;
          mq = min (quantity (m a)) (quantity (m c));
          t = \<lparr>match_quantity = mq,
               match_price = (if timestamp_ns (m a) \<le> timestamp_ns (m c)
                              then price (m a) else price (m c)),
               bid_id = order_id (m a), ask_id = order_id (m c)\<rparr>;
          m2 = m(a := (m a)\<lparr>quantity := quantity (m a) - mq\<rparr>,
                 c := (m c)\<lparr>quantity := quantity (m c) - mq\<rparr>);
          b1 = snd (remove_filled_order a True (b\<lparr>order_mem := m2\<rparr>))
      in Some (t, snd (remove_filled_order c False b1)))"
  using assms by (simp add: match_step_def Let_def split: prod.splits)

lemma match_step_clear_bid:
  "bids b = (bp, bl) # brest \<Longrightarrow> side_clear True bp (asks b) \<Longrightarrow> match_step b = None"
  by (cases "asks b") (auto simp: match_step_def)

lemma match_step_clear_ask:
  "asks b = (ap, al) # arest \<Longrightarrow> side_clear False ap (bids b) \<Longrightarrow> match_step b = None"
  by (cases "bids b") (auto simp: match_step_def)

lemma remove_filled_order_keep:
  "quantity (order_mem b a) \<noteq> 0 \<Longrightarrow> remove_filled_order a buy b = (False, b)"
  by (simp add: remove_filled_order_def split: list.splits)

lemma remove_filled_bid_head:
  assumes "bids b = (bp, bl) # brest" "quantity (order_mem b a) = 0"
    "is_active (order_mem b a)" "prev (order_mem b a) = None" "next (order_mem b a) = Some n"
    "order_count bl \<noteq> 1"
  shows "asks (snd (remove_filled_order a True b)) = asks b"
    and "bids (snd (remove_filled_order a True b)) =
           (bp, bl\<lparr>first_order := Some n, total_quantity := total_quantity bl,
                  order_count := order_count bl - 1\<rparr>) # brest"
    and "order_mem (snd (remove_filled_order a True b)) =
           (let m1 = (order_mem b)(a := (order_mem b a)\<lparr>is_active := False\<rparr>)
            in m1(n := (m1 n)\<lparr>prev := None\<rparr>))"
  using assms
  by (simp_all add: remove_filled_order_def side_of_def set_side_def level_remove_order_head
        level_is_empty_def Let_def)

lemma remove_filled_ask_head:
  assumes "asks b = (ap, al) # arest" "quantity (order_mem b a) = 0"
    "is_active (order_mem b a)" "prev (order_mem b a) = None" "next (order_mem b a) = Some n"
    "order_count al \<noteq> 1"
  shows "bids (snd (remove_filled_order a False b)) = bids b"
    and "asks (snd (remove_filled_order a False b)) =
           (ap, al\<lparr>first_order := Some n, total_quantity := total_quantity al,
                  order_count := order_count al - 1\<rparr>) # arest"
    and "order_mem (snd (remove_filled_order a False b)) =
           (let m1 = (order_mem b)(a := (order_mem b a)\<lparr>is_active := False\<rparr>)
            in m1(n := (m1 n)\<lparr>prev := None\<rparr>))"
  using assms
  by (simp_all add: remove_filled_order_def side_of_def set_side_def level_remove_order_head
        level_is_empty_def Let_def)

lemma remove_filled_ask_last:
  assumes "asks b = (ap, al) # arest" "quantity (order_mem b c) = 0"
    "is_active (order_mem b c)" "prev (order_mem b c) = None" "next (order_mem b c) = None"
    "order_count al = 1"
  shows "asks (snd (remove_filled_order c False b)) = arest"
    and "bids (snd (remove_filled_order c False b)) = bids b"
    and "order_mem (snd (remove_filled_order c False b)) =
           (order_mem b)(c := (order_mem b c)\<lparr>is_active := False\<rparr>)"
  using assms
  by (simp_all add: remove_filled_order_def side_of_def set_side_def level_remove_order_head
        level_is_empty_def Let_def)

lemma remove_filled_bid_last:
  assumes "bids b = (bp, bl) # brest" "quantity (order_mem b c) = 0"
    "is_active (order_mem b c)" "prev (order_mem b c) = None" "next (order_mem b c) = None"
    "order_count bl = 1"
  shows "bids (snd (remove_filled_order c True b)) = brest"
    and "asks (snd (remove_filled_order c True b)) = asks b"
    and "order_mem (snd (remove_filled_order c True b)) =
           (order_mem b)(c := (order_mem b c)\<lparr>is_active := False\<rparr>)"
  using assms
  by (simp_all add: remove_filled_order_def side_of_def set_side_def level_remove_order_head
        level_is_empty_def Let_def)

subsection \<open>Arrival order is queue order\<close>

lemma is_queue_append:
  assumes "is_queue m p h q" and "q \<noteq> []" and "distinct q" and "a \<notin> set q"
    and "next (m a) = None"
  shows "is_queue (m(a := (m a)\<lparr>prev := Some (last q)\<rparr>,
                     last q := (m (last q))\<lparr>next := Some a\<rparr>)) p h (q @ [a])"
  using assms
proof (induction q arbitrary: p h)
  case Nil
  then show ?case by simp
next
  case (Cons x xs)
  show ?case
  proof (cases xs)
    case Nil
    with Cons.prems show ?thesis by auto
  next
    case (Cons y ys)
    with Cons.prems have "last (x # xs) = last xs" "last xs \<noteq> x" "a \<noteq> x" "xs \<noteq> []"
      by auto
    with Cons.prems Cons.IH [of "Some x" "next (m x)"] show ?thesis
      by simp
  qed
qed

text \<open>
  \<^verbatim>\<open>InternalPriceLevel::add_order\<close> puts the order behind every order already queued, so a
  level's queue lists its orders in the order in which they arrived at the level.
\<close>

lemma level_add_order_appends:
  assumes "is_queue m None (first_order L) q"
    and "q \<noteq> [] \<Longrightarrow> last_order L = Some (last q)"
    and "distinct q" and "a \<notin> set q"
    and "next (m a) = None" and "prev (m a) = None"
  shows "is_queue (snd (level_add_order a L m)) None
           (first_order (fst (level_add_order a L m))) (q @ [a])"
    and "last_order (fst (level_add_order a L m)) = Some a"
    and "order_count (fst (level_add_order a L m)) = order_count L + 1"
proof -
  show "is_queue (snd (level_add_order a L m)) None
           (first_order (fst (level_add_order a L m))) (q @ [a])"
  proof (cases q)
    case Nil
    with assms show ?thesis by (simp add: level_add_order_def)
  next
    case (Cons x xs)
    with assms(1) have f: "first_order L = Some x" by simp
    from Cons assms(2) have l: "last_order L = Some (last q)" by simp
    from Cons have ne: "q \<noteq> []" by simp
    with assms(4) have "last q \<noteq> a" by (metis last_in_set)
    with is_queue_append [OF assms(1) ne assms(3,4,5)] f l show ?thesis
      by (simp add: level_add_order_def Let_def)
  qed
  show "last_order (fst (level_add_order a L m)) = Some a"
    by (simp add: level_add_order_def Let_def)
  show "order_count (fst (level_add_order a L m)) = order_count L + 1"
    by (simp add: level_add_order_def Let_def)
qed

subsection \<open>The three cases, resting level on the bid side\<close>

lemma bid_head_filled:
  assumes ready: "queue_ready True b (a # n # q) c"
    and lt: "quantity (order_mem b a) < quantity (order_mem b c)"
  shows "\<exists>t b1. match_step b = Some (t, b1) \<and>
           maker_id True t = order_id (order_mem b a) \<and>
           taker_id True t = order_id (order_mem b c) \<and>
           match_quantity t = quantity (order_mem b a) \<and>
           order_id (order_mem b1 c) = order_id (order_mem b c) \<and>
           queue_ready True b1 (n # q) c \<and>
           (\<forall>x\<in>set (n # q). quantity (order_mem b1 x) = quantity (order_mem b x) \<and>
                              order_id (order_mem b1 x) = order_id (order_mem b x)) \<and>
           quantity (order_mem b1 c) = quantity (order_mem b c) - quantity (order_mem b a) \<and>
           tl (side_of (\<not> True) b1) = tl (side_of (\<not> True) b) \<and>
           map fst (side_of True b1) = map fst (side_of True b) \<and>
           tl (side_of True b1) = tl (side_of True b)"
proof -
  obtain bp bl brest ap al arest where
    B: "bids b = (bp, bl) # brest" and A: "asks b = (ap, al) # arest"
    and X: "\<not> dless bp ap" and LB: "lvl_is_active bl" and LA: "lvl_is_active al"
    and Q: "is_queue (order_mem b) None (first_order bl) (a # n # q)"
    and CNT: "unat (order_count bl) = length (a # n # q)"
    and D: "distinct (a # n # q)" and CQ: "c \<notin> set (a # n # q)"
    and ACT: "\<And>x. x \<in> set (a # n # q) \<Longrightarrow>
                is_active (order_mem b x) \<and> quantity (order_mem b x) \<noteq> 0"
    and FA: "first_order al = Some c" and CA: "order_count al = 1"
    and PC: "prev (order_mem b c) = None" and NC: "next (order_mem b c) = None"
    and AC: "is_active (order_mem b c)" and QC: "quantity (order_mem b c) \<noteq> 0"
    and REST: "side_clear True bp arest"
    by (rule queue_ready_bidE [OF ready]) (rule that)
  let ?m = "order_mem b"
  let ?qa = "quantity (?m a)" and ?qc = "quantity (?m c)"
  from Q have FB: "first_order bl = Some a" and PA: "prev (?m a) = None"
    and NA: "next (?m a) = Some n" and PN: "prev (?m n) = Some a"
    and QT: "is_queue ?m (Some n) (next (?m n)) q"
    by simp_all
  from D CQ have ne: "a \<noteq> c" "a \<noteq> n" "n \<noteq> c" "a \<notin> set q" "n \<notin> set q" "c \<notin> set q"
    by auto
  from ACT have AA: "is_active (?m a)" by simp
  have mq: "min ?qa ?qc = ?qa"
    by (rule min_absorb1) (rule less_imp_le [OF lt])
  let ?m2 = "?m(a := (?m a)\<lparr>quantity := 0\<rparr>, c := (?m c)\<lparr>quantity := ?qc - ?qa\<rparr>)"
  let ?b0 = "b\<lparr>order_mem := ?m2\<rparr>"
  let ?b1 = "snd (remove_filled_order a True ?b0)"
  let ?bl1 = "bl\<lparr>first_order := Some n, total_quantity := total_quantity bl,
                  order_count := order_count bl - 1\<rparr>"
  have c1: "order_count bl \<noteq> 1"
    using CNT by auto
  have rb: "asks ?b1 = asks b" "bids ?b1 = (bp, ?bl1) # brest"
    "order_mem ?b1 = (let m1 = ?m2(a := (?m2 a)\<lparr>is_active := False\<rparr>)
            in m1(n := (m1 n)\<lparr>prev := None\<rparr>))"
    using remove_filled_bid_head [of ?b0 bp bl brest a n] B PA NA AA c1 ne
    by simp_all
  have qc1: "quantity (order_mem ?b1 c) = ?qc - ?qa"
    using ne by (simp add: rb Let_def)
  have "?qc - ?qa \<noteq> 0" using lt by simp
  then have keep: "remove_filled_order c False ?b1 = (False, ?b1)"
    using qc1 by (simp add: remove_filled_order_keep)
  have step: "match_step b = Some (\<lparr>match_quantity = ?qa,
               match_price = (if timestamp_ns (?m a) \<le> timestamp_ns (?m c)
                              then price (?m a) else price (?m c)),
               bid_id = order_id (?m a), ask_id = order_id (?m c)\<rparr>, ?b1)"
    using match_step_heads [OF B A X LB LA FB FA AA AC ne(1)] mq keep
    by (simp add: Let_def)
  have mem: "\<And>x. x \<noteq> a \<Longrightarrow> x \<noteq> c \<Longrightarrow> x \<noteq> n \<Longrightarrow> order_mem ?b1 x = ?m x"
    by (simp add: rb Let_def)
  have memn: "order_mem ?b1 n = (?m n)\<lparr>prev := None\<rparr>"
    using ne by (simp add: rb Let_def)
  have memc: "order_mem ?b1 c = (?m c)\<lparr>quantity := ?qc - ?qa\<rparr>"
    using ne by (simp add: rb Let_def)
  have "is_queue (order_mem ?b1) (Some n) (next (?m n)) q = is_queue ?m (Some n) (next (?m n)) q"
    by (rule is_queue_frame, rule mem) (use ne in auto)
  with QT memn have Q1: "is_queue (order_mem ?b1) None (Some n) (n # q)"
    by simp
  have cnt1: "unat (order_count bl - 1) = length (n # q)"
  proof -
    from CNT have "order_count bl \<noteq> 0" by auto
    then show ?thesis using CNT by (simp add: unat_minus_one)
  qed
  have same: "quantity (order_mem ?b1 x) = quantity (order_mem b x) \<and>
              order_id (order_mem ?b1 x) = order_id (order_mem b x) \<and>
              is_active (order_mem ?b1 x) = is_active (order_mem b x)"
    if "x \<in> set (n # q)" for x
  proof (cases "x = n")
    case True
    with memn show ?thesis by simp
  next
    case False
    with that ne have "x \<noteq> a" "x \<noteq> c" "x \<noteq> n" by auto
    with mem [of x] show ?thesis by simp
  qed
  have R1: "queue_ready True ?b1 (n # q) c"
  proof (rule queue_ready_bidI)
    show "bids ?b1 = (bp, ?bl1) # brest" by (rule rb(2))
    show "asks ?b1 = (ap, al) # arest" using rb(1) A by simp
    show "\<not> dless bp ap" by (rule X)
    show "lvl_is_active ?bl1" using LB by simp
    show "lvl_is_active al" by (rule LA)
    show "is_queue (order_mem ?b1) None (first_order ?bl1) (n # q)" using Q1 by simp
    show "unat (order_count ?bl1) = length (n # q)" using cnt1 by simp
    show "distinct (n # q)" using D by simp
    show "c \<notin> set (n # q)" using CQ by simp
    show "is_active (order_mem ?b1 x) \<and> quantity (order_mem ?b1 x) \<noteq> 0"
      if "x \<in> set (n # q)" for x using same [OF that] ACT [of x] that by simp
    show "first_order al = Some c" by (rule FA)
    show "order_count al = 1" by (rule CA)
    show "prev (order_mem ?b1 c) = None" using memc PC by simp
    show "next (order_mem ?b1 c) = None" using memc NC by simp
    show "is_active (order_mem ?b1 c)" using memc AC by simp
    show "quantity (order_mem ?b1 c) \<noteq> 0" using qc1 lt by simp
    show "side_clear True bp arest" by (rule REST)
  qed
  have sides: "tl (side_of (\<not> True) ?b1) = tl (side_of (\<not> True) b)"
    "map fst (side_of True ?b1) = map fst (side_of True b)"
    "tl (side_of True ?b1) = tl (side_of True b)"
    using rb(1,2) B by (simp_all add: side_of_def)
  from step R1 same qc1 sides memc show ?thesis
    by (intro exI conjI ballI) (assumption | simp add: maker_id_def taker_id_def)+
qed

lemma bid_both_filled:
  assumes ready: "queue_ready True b (a # n # q) c"
    and eq: "quantity (order_mem b a) = quantity (order_mem b c)"
  shows "\<exists>t b1. match_step b = Some (t, b1) \<and> match_step b1 = None \<and>
           maker_id True t = order_id (order_mem b a) \<and>
           taker_id True t = order_id (order_mem b c) \<and>
           match_quantity t = quantity (order_mem b c) \<and>
           side_of (\<not> True) b1 = tl (side_of (\<not> True) b) \<and>
           map fst (side_of True b1) = map fst (side_of True b) \<and>
           tl (side_of True b1) = tl (side_of True b) \<and>
           is_queue (order_mem b1) None (first_order (snd (hd (side_of True b1)))) (n # q) \<and>
           remaining b1 (n # q) = remaining b (n # q)"
proof -
  obtain bp bl brest ap al arest where
    B: "bids b = (bp, bl) # brest" and A: "asks b = (ap, al) # arest"
    and X: "\<not> dless bp ap" and LB: "lvl_is_active bl" and LA: "lvl_is_active al"
    and Q: "is_queue (order_mem b) None (first_order bl) (a # n # q)"
    and CNT: "unat (order_count bl) = length (a # n # q)"
    and D: "distinct (a # n # q)" and CQ: "c \<notin> set (a # n # q)"
    and ACT: "\<And>x. x \<in> set (a # n # q) \<Longrightarrow>
                is_active (order_mem b x) \<and> quantity (order_mem b x) \<noteq> 0"
    and FA: "first_order al = Some c" and CA: "order_count al = 1"
    and PC: "prev (order_mem b c) = None" and NC: "next (order_mem b c) = None"
    and AC: "is_active (order_mem b c)" and QC: "quantity (order_mem b c) \<noteq> 0"
    and REST: "side_clear True bp arest"
    by (rule queue_ready_bidE [OF ready]) (rule that)
  let ?m = "order_mem b"
  let ?qa = "quantity (?m a)" and ?qc = "quantity (?m c)"
  from Q have FB: "first_order bl = Some a" and PA: "prev (?m a) = None"
    and NA: "next (?m a) = Some n" and PN: "prev (?m n) = Some a"
    and QT: "is_queue ?m (Some n) (next (?m n)) q"
    by simp_all
  from D CQ have ne: "a \<noteq> c" "a \<noteq> n" "n \<noteq> c" "a \<notin> set q" "n \<notin> set q" "c \<notin> set q"
    by auto
  from ACT have AA: "is_active (?m a)" by simp
  have mq: "min ?qa ?qc = ?qa" using eq by simp
  let ?m2 = "?m(a := (?m a)\<lparr>quantity := 0\<rparr>, c := (?m c)\<lparr>quantity := 0\<rparr>)"
  let ?b0 = "b\<lparr>order_mem := ?m2\<rparr>"
  let ?b1 = "snd (remove_filled_order a True ?b0)"
  let ?b2 = "snd (remove_filled_order c False ?b1)"
  let ?bl1 = "bl\<lparr>first_order := Some n, total_quantity := total_quantity bl,
                  order_count := order_count bl - 1\<rparr>"
  have c1: "order_count bl \<noteq> 1"
    using CNT by auto
  have rb: "asks ?b1 = asks b" "bids ?b1 = (bp, ?bl1) # brest"
    "order_mem ?b1 = (let m1 = ?m2(a := (?m2 a)\<lparr>is_active := False\<rparr>)
            in m1(n := (m1 n)\<lparr>prev := None\<rparr>))"
    using remove_filled_bid_head [of ?b0 bp bl brest a n] B PA NA AA c1 ne
    by simp_all
  have memc1: "order_mem ?b1 c = (?m c)\<lparr>quantity := 0\<rparr>"
    using ne by (simp add: rb Let_def)
  have ra: "asks ?b2 = arest" "bids ?b2 = bids ?b1"
    "order_mem ?b2 = (order_mem ?b1)(c := (order_mem ?b1 c)\<lparr>is_active := False\<rparr>)"
    using remove_filled_ask_last [of ?b1 ap al arest c] A rb(1) memc1 PC NC AC CA
    by simp_all
  have step: "match_step b = Some (\<lparr>match_quantity = ?qa,
               match_price = (if timestamp_ns (?m a) \<le> timestamp_ns (?m c)
                              then price (?m a) else price (?m c)),
               bid_id = order_id (?m a), ask_id = order_id (?m c)\<rparr>, ?b2)"
    using match_step_heads [OF B A X LB LA FB FA AA AC ne(1)] mq eq
    by (simp add: Let_def)
  have bids2: "bids ?b2 = (bp, ?bl1) # brest" using ra(2) rb(2) by simp
  have stop: "match_step ?b2 = None"
    using match_step_clear_bid [OF bids2] ra(1) REST by simp
  have mem: "\<And>x. x \<noteq> a \<Longrightarrow> x \<noteq> c \<Longrightarrow> x \<noteq> n \<Longrightarrow> order_mem ?b2 x = ?m x"
    by (simp add: ra rb Let_def)
  have memn: "order_mem ?b2 n = (?m n)\<lparr>prev := None\<rparr>"
    using ne by (simp add: ra rb Let_def)
  have "is_queue (order_mem ?b2) (Some n) (next (?m n)) q = is_queue ?m (Some n) (next (?m n)) q"
    by (rule is_queue_frame, rule mem) (use ne in auto)
  with QT memn bids2
  have Q2: "is_queue (order_mem ?b2) None (first_order (snd (hd (side_of True ?b2)))) (n # q)"
    by (simp add: side_of_def)
  have rem: "remaining ?b2 (n # q) = remaining b (n # q)"
  proof (rule remaining_frame)
    fix x assume x: "x \<in> set (n # q)"
    show "quantity (order_mem ?b2 x) = quantity (order_mem b x)"
    proof (cases "x = n")
      case True
      with memn show ?thesis by simp
    next
      case False
      with x ne have "x \<noteq> a" "x \<noteq> c" "x \<noteq> n" by auto
      with mem [of x] show ?thesis by simp
    qed
  qed
  have sides: "side_of (\<not> True) ?b2 = tl (side_of (\<not> True) b)"
    "map fst (side_of True ?b2) = map fst (side_of True b)"
    "tl (side_of True ?b2) = tl (side_of True b)"
    using ra(1) A bids2 B by (simp_all add: side_of_def)
  from step stop sides Q2 rem eq show ?thesis
    by (intro exI conjI) (assumption | simp add: maker_id_def taker_id_def)+
qed

lemma bid_head_partial:
  assumes ready: "queue_ready True b (a # q) c"
    and lt: "quantity (order_mem b c) < quantity (order_mem b a)"
  shows "\<exists>t b1. match_step b = Some (t, b1) \<and> match_step b1 = None \<and>
           maker_id True t = order_id (order_mem b a) \<and>
           taker_id True t = order_id (order_mem b c) \<and>
           match_quantity t = quantity (order_mem b c) \<and>
           side_of (\<not> True) b1 = tl (side_of (\<not> True) b) \<and>
           map fst (side_of True b1) = map fst (side_of True b) \<and>
           tl (side_of True b1) = tl (side_of True b) \<and>
           is_queue (order_mem b1) None (first_order (snd (hd (side_of True b1)))) (a # q) \<and>
           remaining b1 (a # q) =
             (unat (quantity (order_mem b a)) - unat (quantity (order_mem b c))) # remaining b q"
proof -
  obtain bp bl brest ap al arest where
    B: "bids b = (bp, bl) # brest" and A: "asks b = (ap, al) # arest"
    and X: "\<not> dless bp ap" and LB: "lvl_is_active bl" and LA: "lvl_is_active al"
    and Q: "is_queue (order_mem b) None (first_order bl) (a # q)"
    and CNT: "unat (order_count bl) = length (a # q)"
    and D: "distinct (a # q)" and CQ: "c \<notin> set (a # q)"
    and ACT: "\<And>x. x \<in> set (a # q) \<Longrightarrow>
                is_active (order_mem b x) \<and> quantity (order_mem b x) \<noteq> 0"
    and FA: "first_order al = Some c" and CA: "order_count al = 1"
    and PC: "prev (order_mem b c) = None" and NC: "next (order_mem b c) = None"
    and AC: "is_active (order_mem b c)" and QC: "quantity (order_mem b c) \<noteq> 0"
    and REST: "side_clear True bp arest"
    by (rule queue_ready_bidE [OF ready]) (rule that)
  let ?m = "order_mem b"
  let ?qa = "quantity (?m a)" and ?qc = "quantity (?m c)"
  from Q have FB: "first_order bl = Some a" by simp
  from D CQ have ne: "a \<noteq> c" "a \<notin> set q" "c \<notin> set q" by auto
  from ACT have AA: "is_active (?m a)" by simp
  have mq: "min ?qa ?qc = ?qc"
    by (rule min_absorb2) (rule less_imp_le [OF lt])
  let ?m2 = "?m(a := (?m a)\<lparr>quantity := ?qa - ?qc\<rparr>, c := (?m c)\<lparr>quantity := 0\<rparr>)"
  let ?b0 = "b\<lparr>order_mem := ?m2\<rparr>"
  let ?b2 = "snd (remove_filled_order c False ?b0)"
  have "?qa - ?qc \<noteq> 0" using lt by simp
  then have keep: "remove_filled_order a True ?b0 = (False, ?b0)"
    using ne by (simp add: remove_filled_order_keep)
  have ra: "asks ?b2 = arest" "bids ?b2 = bids ?b0"
    "order_mem ?b2 = ?m2(c := (?m2 c)\<lparr>is_active := False\<rparr>)"
    using remove_filled_ask_last [of ?b0 ap al arest c] A PC NC AC CA ne
    by simp_all
  have step: "match_step b = Some (\<lparr>match_quantity = ?qc,
               match_price = (if timestamp_ns (?m a) \<le> timestamp_ns (?m c)
                              then price (?m a) else price (?m c)),
               bid_id = order_id (?m a), ask_id = order_id (?m c)\<rparr>, ?b2)"
    using match_step_heads [OF B A X LB LA FB FA AA AC ne(1)] mq keep
    by (simp add: Let_def)
  have bids2: "bids ?b2 = (bp, bl) # brest" using ra(2) B by simp
  have stop: "match_step ?b2 = None"
    using match_step_clear_bid [OF bids2] ra(1) REST by simp
  have mema: "order_mem ?b2 a = (?m a)\<lparr>quantity := ?qa - ?qc\<rparr>"
    using ne by (simp add: ra)
  have mem: "\<And>x. x \<noteq> a \<Longrightarrow> x \<noteq> c \<Longrightarrow> order_mem ?b2 x = ?m x"
    by (simp add: ra)
  have links: "prev (order_mem ?b2 x) = prev (?m x) \<and> next (order_mem ?b2 x) = next (?m x)"
    if "x \<in> set (a # q)" for x
  proof (cases "x = a")
    case True
    with mema show ?thesis by simp
  next
    case False
    with that CQ have "x \<noteq> a" "x \<noteq> c" by auto
    with mem [of x] show ?thesis by simp
  qed
  have "is_queue (order_mem ?b2) None (first_order bl) (a # q) =
        is_queue ?m None (first_order bl) (a # q)"
    by (rule is_queue_links) (rule links)
  with Q have Q2: "is_queue (order_mem ?b2) None (first_order (snd (hd (side_of True ?b2)))) (a # q)"
    using bids2 by (simp add: side_of_def)
  have "remaining ?b2 q = remaining b q"
  proof (rule remaining_frame)
    fix x assume "x \<in> set q"
    with ne have "x \<noteq> a" "x \<noteq> c" by auto
    with mem [of x] show "quantity (order_mem ?b2 x) = quantity (order_mem b x)" by simp
  qed
  moreover have "unat (?qa - ?qc) = unat ?qa - unat ?qc"
    by (rule unat_sub) (rule less_imp_le [OF lt])
  ultimately have rem: "remaining ?b2 (a # q) = (unat ?qa - unat ?qc) # remaining b q"
    using mema by (simp add: remaining_def)
  have sides: "side_of (\<not> True) ?b2 = tl (side_of (\<not> True) b)"
    "map fst (side_of True ?b2) = map fst (side_of True b)"
    "tl (side_of True ?b2) = tl (side_of True b)"
    using ra(1) A bids2 B by (simp_all add: side_of_def)
  from step stop sides Q2 rem show ?thesis
    by (intro exI conjI) (assumption | simp add: maker_id_def taker_id_def)+
qed

subsection \<open>The three cases, resting level on the ask side\<close>

lemma ask_head_filled:
  assumes ready: "queue_ready False b (a # n # q) c"
    and lt: "quantity (order_mem b a) < quantity (order_mem b c)"
  shows "\<exists>t b1. match_step b = Some (t, b1) \<and>
           maker_id False t = order_id (order_mem b a) \<and>
           taker_id False t = order_id (order_mem b c) \<and>
           match_quantity t = quantity (order_mem b a) \<and>
           order_id (order_mem b1 c) = order_id (order_mem b c) \<and>
           queue_ready False b1 (n # q) c \<and>
           (\<forall>x\<in>set (n # q). quantity (order_mem b1 x) = quantity (order_mem b x) \<and>
                              order_id (order_mem b1 x) = order_id (order_mem b x)) \<and>
           quantity (order_mem b1 c) = quantity (order_mem b c) - quantity (order_mem b a) \<and>
           tl (side_of (\<not> False) b1) = tl (side_of (\<not> False) b) \<and>
           map fst (side_of False b1) = map fst (side_of False b) \<and>
           tl (side_of False b1) = tl (side_of False b)"
proof -
  obtain bp bl brest ap al arest where
    B: "bids b = (bp, bl) # brest" and A: "asks b = (ap, al) # arest"
    and X: "\<not> dless bp ap" and LB: "lvl_is_active bl" and LA: "lvl_is_active al"
    and Q: "is_queue (order_mem b) None (first_order al) (a # n # q)"
    and CNT: "unat (order_count al) = length (a # n # q)"
    and D: "distinct (a # n # q)" and CQ: "c \<notin> set (a # n # q)"
    and ACT: "\<And>x. x \<in> set (a # n # q) \<Longrightarrow>
                is_active (order_mem b x) \<and> quantity (order_mem b x) \<noteq> 0"
    and FB: "first_order bl = Some c" and CB: "order_count bl = 1"
    and PC: "prev (order_mem b c) = None" and NC: "next (order_mem b c) = None"
    and AC: "is_active (order_mem b c)" and QC: "quantity (order_mem b c) \<noteq> 0"
    and REST: "side_clear False ap brest"
    by (rule queue_ready_askE [OF ready]) (rule that)
  let ?m = "order_mem b"
  let ?qa = "quantity (?m a)" and ?qc = "quantity (?m c)"
  from Q have FA: "first_order al = Some a" and PA: "prev (?m a) = None"
    and NA: "next (?m a) = Some n" and PN: "prev (?m n) = Some a"
    and QT: "is_queue ?m (Some n) (next (?m n)) q"
    by simp_all
  from D CQ have ne: "c \<noteq> a" "a \<noteq> n" "n \<noteq> c" "a \<notin> set q" "n \<notin> set q" "c \<notin> set q"
    by auto
  from ACT have AA: "is_active (?m a)" by simp
  have mq: "min ?qc ?qa = ?qa"
    by (rule min_absorb2) (rule less_imp_le [OF lt])
  let ?m2 = "?m(c := (?m c)\<lparr>quantity := ?qc - ?qa\<rparr>, a := (?m a)\<lparr>quantity := 0\<rparr>)"
  let ?b0 = "b\<lparr>order_mem := ?m2\<rparr>"
  let ?b1 = "snd (remove_filled_order a False ?b0)"
  let ?al1 = "al\<lparr>first_order := Some n, total_quantity := total_quantity al,
                  order_count := order_count al - 1\<rparr>"
  have "?qc - ?qa \<noteq> 0" using lt by simp
  then have keep: "remove_filled_order c True ?b0 = (False, ?b0)"
    using ne by (simp add: remove_filled_order_keep)
  have c1: "order_count al \<noteq> 1"
    using CNT by auto
  have rb: "bids ?b1 = bids b" "asks ?b1 = (ap, ?al1) # arest"
    "order_mem ?b1 = (let m1 = ?m2(a := (?m2 a)\<lparr>is_active := False\<rparr>)
            in m1(n := (m1 n)\<lparr>prev := None\<rparr>))"
    using remove_filled_ask_head [of ?b0 ap al arest a n] A PA NA AA c1 ne
    by simp_all
  have step: "match_step b = Some (\<lparr>match_quantity = ?qa,
               match_price = (if timestamp_ns (?m c) \<le> timestamp_ns (?m a)
                              then price (?m c) else price (?m a)),
               bid_id = order_id (?m c), ask_id = order_id (?m a)\<rparr>, ?b1)"
    using match_step_heads [OF B A X LB LA FB FA AC AA ne(1)] mq keep
    by (simp add: Let_def)
  have mem: "\<And>x. x \<noteq> a \<Longrightarrow> x \<noteq> c \<Longrightarrow> x \<noteq> n \<Longrightarrow> order_mem ?b1 x = ?m x"
    by (simp add: rb Let_def)
  have memn: "order_mem ?b1 n = (?m n)\<lparr>prev := None\<rparr>"
    using ne by (simp add: rb Let_def)
  have memc: "order_mem ?b1 c = (?m c)\<lparr>quantity := ?qc - ?qa\<rparr>"
    using ne by (simp add: rb Let_def)
  have qc1: "quantity (order_mem ?b1 c) = ?qc - ?qa"
    using memc by simp
  have "is_queue (order_mem ?b1) (Some n) (next (?m n)) q = is_queue ?m (Some n) (next (?m n)) q"
    by (rule is_queue_frame, rule mem) (use ne in auto)
  with QT memn have Q1: "is_queue (order_mem ?b1) None (Some n) (n # q)"
    by simp
  have cnt1: "unat (order_count al - 1) = length (n # q)"
  proof -
    from CNT have "order_count al \<noteq> 0" by auto
    then show ?thesis using CNT by (simp add: unat_minus_one)
  qed
  have same: "quantity (order_mem ?b1 x) = quantity (order_mem b x) \<and>
              order_id (order_mem ?b1 x) = order_id (order_mem b x) \<and>
              is_active (order_mem ?b1 x) = is_active (order_mem b x)"
    if "x \<in> set (n # q)" for x
  proof (cases "x = n")
    case True
    with memn show ?thesis by simp
  next
    case False
    with that ne have "x \<noteq> a" "x \<noteq> c" "x \<noteq> n" by auto
    with mem [of x] show ?thesis by simp
  qed
  have R1: "queue_ready False ?b1 (n # q) c"
  proof (rule queue_ready_askI)
    show "bids ?b1 = (bp, bl) # brest" using rb(1) B by simp
    show "asks ?b1 = (ap, ?al1) # arest" by (rule rb(2))
    show "\<not> dless bp ap" by (rule X)
    show "lvl_is_active bl" by (rule LB)
    show "lvl_is_active ?al1" using LA by simp
    show "is_queue (order_mem ?b1) None (first_order ?al1) (n # q)" using Q1 by simp
    show "unat (order_count ?al1) = length (n # q)" using cnt1 by simp
    show "distinct (n # q)" using D by simp
    show "c \<notin> set (n # q)" using CQ by simp
    show "is_active (order_mem ?b1 x) \<and> quantity (order_mem ?b1 x) \<noteq> 0"
      if "x \<in> set (n # q)" for x using same [OF that] ACT [of x] that by simp
    show "first_order bl = Some c" by (rule FB)
    show "order_count bl = 1" by (rule CB)
    show "prev (order_mem ?b1 c) = None" using memc PC by simp
    show "next (order_mem ?b1 c) = None" using memc NC by simp
    show "is_active (order_mem ?b1 c)" using memc AC by simp
    show "quantity (order_mem ?b1 c) \<noteq> 0" using qc1 lt by simp
    show "side_clear False ap brest" by (rule REST)
  qed
  have sides: "tl (side_of (\<not> False) ?b1) = tl (side_of (\<not> False) b)"
    "map fst (side_of False ?b1) = map fst (side_of False b)"
    "tl (side_of False ?b1) = tl (side_of False b)"
    using rb(1,2) A by (simp_all add: side_of_def)
  from step R1 same qc1 sides memc show ?thesis
    by (intro exI conjI ballI) (assumption | simp add: maker_id_def taker_id_def)+
qed

lemma ask_both_filled:
  assumes ready: "queue_ready False b (a # n # q) c"
    and eq: "quantity (order_mem b a) = quantity (order_mem b c)"
  shows "\<exists>t b1. match_step b = Some (t, b1) \<and> match_step b1 = None \<and>
           maker_id False t = order_id (order_mem b a) \<and>
           taker_id False t = order_id (order_mem b c) \<and>
           match_quantity t = quantity (order_mem b c) \<and>
           side_of (\<not> False) b1 = tl (side_of (\<not> False) b) \<and>
           map fst (side_of False b1) = map fst (side_of False b) \<and>
           tl (side_of False b1) = tl (side_of False b) \<and>
           is_queue (order_mem b1) None (first_order (snd (hd (side_of False b1)))) (n # q) \<and>
           remaining b1 (n # q) = remaining b (n # q)"
proof -
  obtain bp bl brest ap al arest where
    B: "bids b = (bp, bl) # brest" and A: "asks b = (ap, al) # arest"
    and X: "\<not> dless bp ap" and LB: "lvl_is_active bl" and LA: "lvl_is_active al"
    and Q: "is_queue (order_mem b) None (first_order al) (a # n # q)"
    and CNT: "unat (order_count al) = length (a # n # q)"
    and D: "distinct (a # n # q)" and CQ: "c \<notin> set (a # n # q)"
    and ACT: "\<And>x. x \<in> set (a # n # q) \<Longrightarrow>
                is_active (order_mem b x) \<and> quantity (order_mem b x) \<noteq> 0"
    and FB: "first_order bl = Some c" and CB: "order_count bl = 1"
    and PC: "prev (order_mem b c) = None" and NC: "next (order_mem b c) = None"
    and AC: "is_active (order_mem b c)" and QC: "quantity (order_mem b c) \<noteq> 0"
    and REST: "side_clear False ap brest"
    by (rule queue_ready_askE [OF ready]) (rule that)
  let ?m = "order_mem b"
  let ?qa = "quantity (?m a)" and ?qc = "quantity (?m c)"
  from Q have FA: "first_order al = Some a" and PA: "prev (?m a) = None"
    and NA: "next (?m a) = Some n" and PN: "prev (?m n) = Some a"
    and QT: "is_queue ?m (Some n) (next (?m n)) q"
    by simp_all
  from D CQ have ne: "c \<noteq> a" "a \<noteq> n" "n \<noteq> c" "a \<notin> set q" "n \<notin> set q" "c \<notin> set q"
    by auto
  from ACT have AA: "is_active (?m a)" by simp
  have mq: "min ?qc ?qa = ?qa" using eq by simp
  let ?m2 = "?m(c := (?m c)\<lparr>quantity := 0\<rparr>, a := (?m a)\<lparr>quantity := 0\<rparr>)"
  let ?b0 = "b\<lparr>order_mem := ?m2\<rparr>"
  let ?b1 = "snd (remove_filled_order c True ?b0)"
  let ?b2 = "snd (remove_filled_order a False ?b1)"
  let ?al1 = "al\<lparr>first_order := Some n, total_quantity := total_quantity al,
                  order_count := order_count al - 1\<rparr>"
  have c1: "order_count al \<noteq> 1"
    using CNT by auto
  have rc: "bids ?b1 = brest" "asks ?b1 = asks ?b0"
    "order_mem ?b1 = ?m2(c := (?m2 c)\<lparr>is_active := False\<rparr>)"
    using remove_filled_bid_last [of ?b0 bp bl brest c] B PC NC AC CB ne
    by simp_all
  have mema1: "order_mem ?b1 a = (?m a)\<lparr>quantity := 0\<rparr>"
    using ne by (simp add: rc)
  have ra: "bids ?b2 = bids ?b1" "asks ?b2 = (ap, ?al1) # arest"
    "order_mem ?b2 = (let m1 = (order_mem ?b1)(a := (order_mem ?b1 a)\<lparr>is_active := False\<rparr>)
            in m1(n := (m1 n)\<lparr>prev := None\<rparr>))"
    using remove_filled_ask_head [of ?b1 ap al arest a n] A rc(2) mema1 PA NA AA c1
    by simp_all
  have step: "match_step b = Some (\<lparr>match_quantity = ?qa,
               match_price = (if timestamp_ns (?m c) \<le> timestamp_ns (?m a)
                              then price (?m c) else price (?m a)),
               bid_id = order_id (?m c), ask_id = order_id (?m a)\<rparr>, ?b2)"
    using match_step_heads [OF B A X LB LA FB FA AC AA ne(1)] mq eq
    by (simp add: Let_def)
  have bids2: "bids ?b2 = brest" using ra(1) rc(1) by simp
  have stop: "match_step ?b2 = None"
    using match_step_clear_ask [OF ra(2)] bids2 REST by simp
  have mem: "\<And>x. x \<noteq> a \<Longrightarrow> x \<noteq> c \<Longrightarrow> x \<noteq> n \<Longrightarrow> order_mem ?b2 x = ?m x"
    by (simp add: ra rc Let_def)
  have memn: "order_mem ?b2 n = (?m n)\<lparr>prev := None\<rparr>"
    using ne by (simp add: ra rc Let_def)
  have "is_queue (order_mem ?b2) (Some n) (next (?m n)) q = is_queue ?m (Some n) (next (?m n)) q"
    by (rule is_queue_frame, rule mem) (use ne in auto)
  with QT memn ra(2)
  have Q2: "is_queue (order_mem ?b2) None (first_order (snd (hd (side_of False ?b2)))) (n # q)"
    by (simp add: side_of_def)
  have rem: "remaining ?b2 (n # q) = remaining b (n # q)"
  proof (rule remaining_frame)
    fix x assume x: "x \<in> set (n # q)"
    show "quantity (order_mem ?b2 x) = quantity (order_mem b x)"
    proof (cases "x = n")
      case True
      with memn show ?thesis by simp
    next
      case False
      with x ne have "x \<noteq> a" "x \<noteq> c" "x \<noteq> n" by auto
      with mem [of x] show ?thesis by simp
    qed
  qed
  have sides: "side_of (\<not> False) ?b2 = tl (side_of (\<not> False) b)"
    "map fst (side_of False ?b2) = map fst (side_of False b)"
    "tl (side_of False ?b2) = tl (side_of False b)"
    using ra(2) A bids2 B by (simp_all add: side_of_def)
  from step stop sides Q2 rem eq show ?thesis
    by (intro exI conjI) (assumption | simp add: maker_id_def taker_id_def)+
qed

lemma ask_head_partial:
  assumes ready: "queue_ready False b (a # q) c"
    and lt: "quantity (order_mem b c) < quantity (order_mem b a)"
  shows "\<exists>t b1. match_step b = Some (t, b1) \<and> match_step b1 = None \<and>
           maker_id False t = order_id (order_mem b a) \<and>
           taker_id False t = order_id (order_mem b c) \<and>
           match_quantity t = quantity (order_mem b c) \<and>
           side_of (\<not> False) b1 = tl (side_of (\<not> False) b) \<and>
           map fst (side_of False b1) = map fst (side_of False b) \<and>
           tl (side_of False b1) = tl (side_of False b) \<and>
           is_queue (order_mem b1) None (first_order (snd (hd (side_of False b1)))) (a # q) \<and>
           remaining b1 (a # q) =
             (unat (quantity (order_mem b a)) - unat (quantity (order_mem b c))) # remaining b q"
proof -
  obtain bp bl brest ap al arest where
    B: "bids b = (bp, bl) # brest" and A: "asks b = (ap, al) # arest"
    and X: "\<not> dless bp ap" and LB: "lvl_is_active bl" and LA: "lvl_is_active al"
    and Q: "is_queue (order_mem b) None (first_order al) (a # q)"
    and CNT: "unat (order_count al) = length (a # q)"
    and D: "distinct (a # q)" and CQ: "c \<notin> set (a # q)"
    and ACT: "\<And>x. x \<in> set (a # q) \<Longrightarrow>
                is_active (order_mem b x) \<and> quantity (order_mem b x) \<noteq> 0"
    and FB: "first_order bl = Some c" and CB: "order_count bl = 1"
    and PC: "prev (order_mem b c) = None" and NC: "next (order_mem b c) = None"
    and AC: "is_active (order_mem b c)" and QC: "quantity (order_mem b c) \<noteq> 0"
    and REST: "side_clear False ap brest"
    by (rule queue_ready_askE [OF ready]) (rule that)
  let ?m = "order_mem b"
  let ?qa = "quantity (?m a)" and ?qc = "quantity (?m c)"
  from Q have FA: "first_order al = Some a" by simp
  from D CQ have ne: "c \<noteq> a" "a \<notin> set q" "c \<notin> set q" by auto
  from ACT have AA: "is_active (?m a)" by simp
  have mq: "min ?qc ?qa = ?qc"
    by (rule min_absorb1) (rule less_imp_le [OF lt])
  let ?m2 = "?m(c := (?m c)\<lparr>quantity := 0\<rparr>, a := (?m a)\<lparr>quantity := ?qa - ?qc\<rparr>)"
  let ?b0 = "b\<lparr>order_mem := ?m2\<rparr>"
  let ?b1 = "snd (remove_filled_order c True ?b0)"
  have rc: "bids ?b1 = brest" "asks ?b1 = asks ?b0"
    "order_mem ?b1 = ?m2(c := (?m2 c)\<lparr>is_active := False\<rparr>)"
    using remove_filled_bid_last [of ?b0 bp bl brest c] B PC NC AC CB ne
    by simp_all
  have mema: "order_mem ?b1 a = (?m a)\<lparr>quantity := ?qa - ?qc\<rparr>"
    using ne by (simp add: rc)
  have "?qa - ?qc \<noteq> 0" using lt by simp
  then have keep: "remove_filled_order a False ?b1 = (False, ?b1)"
    using mema by (simp add: remove_filled_order_keep)
  have step: "match_step b = Some (\<lparr>match_quantity = ?qc,
               match_price = (if timestamp_ns (?m c) \<le> timestamp_ns (?m a)
                              then price (?m c) else price (?m a)),
               bid_id = order_id (?m c), ask_id = order_id (?m a)\<rparr>, ?b1)"
    using match_step_heads [OF B A X LB LA FB FA AC AA ne(1)] mq keep
    by (simp add: Let_def)
  have asks1: "asks ?b1 = (ap, al) # arest" using rc(2) A by simp
  have stop: "match_step ?b1 = None"
    using match_step_clear_ask [OF asks1] rc(1) REST by simp
  have mem: "\<And>x. x \<noteq> a \<Longrightarrow> x \<noteq> c \<Longrightarrow> order_mem ?b1 x = ?m x"
    by (simp add: rc)
  have links: "prev (order_mem ?b1 x) = prev (?m x) \<and> next (order_mem ?b1 x) = next (?m x)"
    if "x \<in> set (a # q)" for x
  proof (cases "x = a")
    case True
    with mema show ?thesis by simp
  next
    case False
    with that CQ have "x \<noteq> a" "x \<noteq> c" by auto
    with mem [of x] show ?thesis by simp
  qed
  have "is_queue (order_mem ?b1) None (first_order al) (a # q) =
        is_queue ?m None (first_order al) (a # q)"
    by (rule is_queue_links) (rule links)
  with Q have Q2: "is_queue (order_mem ?b1) None (first_order (snd (hd (side_of False ?b1)))) (a # q)"
    using asks1 by (simp add: side_of_def)
  have "remaining ?b1 q = remaining b q"
  proof (rule remaining_frame)
    fix x assume "x \<in> set q"
    with ne have "x \<noteq> a" "x \<noteq> c" by auto
    with mem [of x] show "quantity (order_mem ?b1 x) = quantity (order_mem b x)" by simp
  qed
  moreover have "unat (?qa - ?qc) = unat ?qa - unat ?qc"
    by (rule unat_sub) (rule less_imp_le [OF lt])
  ultimately have rem: "remaining ?b1 (a # q) = (unat ?qa - unat ?qc) # remaining b q"
    using mema by (simp add: remaining_def)
  have sides: "side_of (\<not> False) ?b1 = tl (side_of (\<not> False) b)"
    "map fst (side_of False ?b1) = map fst (side_of False b)"
    "tl (side_of False ?b1) = tl (side_of False b)"
    using rc(1) asks1 A B by (simp_all add: side_of_def)
  from step stop sides Q2 rem show ?thesis
    by (intro exI conjI) (assumption | simp add: maker_id_def taker_id_def)+
qed

subsection \<open>The loop\<close>

lemma head_filled:
  assumes "queue_ready buy b (a # n # q) c"
    and "quantity (order_mem b a) < quantity (order_mem b c)"
  shows "\<exists>t b1. match_step b = Some (t, b1) \<and>
           maker_id buy t = order_id (order_mem b a) \<and>
           taker_id buy t = order_id (order_mem b c) \<and>
           match_quantity t = quantity (order_mem b a) \<and>
           order_id (order_mem b1 c) = order_id (order_mem b c) \<and>
           queue_ready buy b1 (n # q) c \<and>
           (\<forall>x\<in>set (n # q). quantity (order_mem b1 x) = quantity (order_mem b x) \<and>
                              order_id (order_mem b1 x) = order_id (order_mem b x)) \<and>
           quantity (order_mem b1 c) = quantity (order_mem b c) - quantity (order_mem b a) \<and>
           tl (side_of (\<not> buy) b1) = tl (side_of (\<not> buy) b) \<and>
           map fst (side_of buy b1) = map fst (side_of buy b) \<and>
           tl (side_of buy b1) = tl (side_of buy b)"
proof (cases buy)
  case True
  with assms bid_head_filled [of b a n q c] show ?thesis by simp
next
  case False
  with assms ask_head_filled [of b a n q c] show ?thesis by simp
qed

lemma both_filled:
  assumes "queue_ready buy b (a # n # q) c"
    and "quantity (order_mem b a) = quantity (order_mem b c)"
  shows "\<exists>t b1. match_step b = Some (t, b1) \<and> match_step b1 = None \<and>
           maker_id buy t = order_id (order_mem b a) \<and>
           taker_id buy t = order_id (order_mem b c) \<and>
           match_quantity t = quantity (order_mem b c) \<and>
           side_of (\<not> buy) b1 = tl (side_of (\<not> buy) b) \<and>
           map fst (side_of buy b1) = map fst (side_of buy b) \<and>
           tl (side_of buy b1) = tl (side_of buy b) \<and>
           is_queue (order_mem b1) None (first_order (snd (hd (side_of buy b1)))) (n # q) \<and>
           remaining b1 (n # q) = remaining b (n # q)"
proof (cases buy)
  case True
  with assms bid_both_filled [of b a n q c] show ?thesis by simp
next
  case False
  with assms ask_both_filled [of b a n q c] show ?thesis by simp
qed

lemma head_partial:
  assumes "queue_ready buy b (a # q) c"
    and "quantity (order_mem b c) < quantity (order_mem b a)"
  shows "\<exists>t b1. match_step b = Some (t, b1) \<and> match_step b1 = None \<and>
           maker_id buy t = order_id (order_mem b a) \<and>
           taker_id buy t = order_id (order_mem b c) \<and>
           match_quantity t = quantity (order_mem b c) \<and>
           side_of (\<not> buy) b1 = tl (side_of (\<not> buy) b) \<and>
           map fst (side_of buy b1) = map fst (side_of buy b) \<and>
           tl (side_of buy b1) = tl (side_of buy b) \<and>
           is_queue (order_mem b1) None (first_order (snd (hd (side_of buy b1)))) (a # q) \<and>
           remaining b1 (a # q) =
             (unat (quantity (order_mem b a)) - unat (quantity (order_mem b c))) # remaining b q"
proof (cases buy)
  case True
  with assms bid_head_partial [of b a q c] show ?thesis by simp
next
  case False
  with assms ask_head_partial [of b a q c] show ?thesis by simp
qed

lemma queue_ready_taker_left:
  "queue_ready buy b q c \<Longrightarrow> quantity (order_mem b c) \<noteq> 0"
  by (cases buy) (auto elim: queue_ready_bidE queue_ready_askE)

lemma match_loop_fifo:
  assumes "queue_ready buy b q c"
    and "unat (quantity (order_mem b c)) < sum_list (remaining b q)"
  shows "\<exists>ts b'. match_loop acc b = Some (rev acc @ ts, b') \<and> fifo_outcome buy b q c ts b'"
  using assms
proof (induction q arbitrary: b acc)
  case Nil
  then show ?case by (simp add: remaining_def)
next
  case (Cons a q0)
  let ?qa = "quantity (order_mem b a)" and ?qc = "quantity (order_mem b c)"
  have rem: "remaining b (a # q0) = unat ?qa # remaining b q0"
    by (simp add: remaining_def)
  from Cons.prems(1) have nz: "?qc \<noteq> 0"
    by (rule queue_ready_taker_left)
  then have s0: "unat ?qc \<noteq> 0"
    by (simp add: unat_eq_0)
  from Cons.prems(2) rem have sum: "unat ?qc < unat ?qa + sum_list (remaining b q0)"
    by simp
  consider (maker) "?qa < ?qc" | (both) "?qa = ?qc" | (taker) "?qc < ?qa"
    by (rule linorder_cases)
  then show ?case
  proof cases
    case maker
    then have le: "unat ?qa < unat ?qc"
      by (simp add: word_less_nat_alt)
    with sum have pos: "0 < sum_list (remaining b q0)" by linarith
    obtain n q1 where q0: "q0 = n # q1"
    proof (cases q0)
      case Nil
      with pos show ?thesis by (simp add: remaining_def)
    qed blast
    from head_filled [OF Cons.prems(1) [unfolded q0] maker]
    obtain t b1 where step: "match_step b = Some (t, b1)"
      and tid: "maker_id buy t = order_id (order_mem b a)"
        "taker_id buy t = order_id (order_mem b c)" "match_quantity t = ?qa"
      and cid: "order_id (order_mem b1 c) = order_id (order_mem b c)"
      and ready1: "queue_ready buy b1 q0 c"
      and same: "\<And>x. x \<in> set q0 \<Longrightarrow> quantity (order_mem b1 x) = quantity (order_mem b x) \<and>
                              order_id (order_mem b1 x) = order_id (order_mem b x)"
      and qc1: "quantity (order_mem b1 c) = ?qc - ?qa"
      and sides: "tl (side_of (\<not> buy) b1) = tl (side_of (\<not> buy) b)"
                 "map fst (side_of buy b1) = map fst (side_of buy b)"
                 "tl (side_of buy b1) = tl (side_of buy b)"
      unfolding q0 by blast
    have rem1: "remaining b1 q0 = remaining b q0"
      by (rule remaining_frame) (simp add: same)
    have s1: "unat (quantity (order_mem b1 c)) = unat ?qc - unat ?qa"
      unfolding qc1 by (rule unat_sub) (rule less_imp_le [OF maker])
    from sum le have lt1: "unat (quantity (order_mem b1 c)) < sum_list (remaining b1 q0)"
      by (simp add: s1 rem1)
    from Cons.IH [OF ready1 lt1, of "t # acc"]
    obtain ts1 b' where run1: "match_loop (t # acc) b1 = Some (rev (t # acc) @ ts1, b')"
      and out1: "fifo_outcome buy b1 q0 c ts1 b'"
      by blast
    have loop: "match_loop acc b = Some (rev acc @ (t # ts1), b')"
      by (subst match_loop.simps) (simp add: step run1)
    let ?r = "fifo_fill (unat ?qc - unat ?qa) (remaining b q0)"
    have fill: "fifo_fill (unat ?qc) (remaining b (a # q0)) = ?r"
      "fifo_trades (unat ?qc) (remaining b (a # q0)) =
         unat ?qa # fifo_trades (unat ?qc - unat ?qa) (remaining b q0)"
      using s0 le by (simp_all add: rem)
    have "length ?r \<le> length q0"
      using length_fifo_fill [of "unat ?qc - unat ?qa" "remaining b q0"]
      by (simp add: remaining_def)
    then have dr: "drop (Suc (length q0) - length ?r) (a # q0) = drop (length q0 - length ?r) q0"
      by (simp add: Suc_diff_le)
    have ids: "map (\<lambda>x. order_id (order_mem b1 x)) (take k q0) =
               map (\<lambda>x. order_id (order_mem b x)) (take k q0)" for k
      by (rule map_cong [OF refl]) (use same in \<open>auto dest: in_set_takeD\<close>)
    from out1 have "fifo_outcome buy b (a # q0) c (t # ts1) b'"
      unfolding fifo_outcome_def Let_def fill
      by (simp add: s1 rem1 sides tid ids dr cid)
    with loop show ?thesis by blast
  next
    case both
    from sum have pos: "0 < sum_list (remaining b q0)"
      unfolding both by linarith
    obtain n q1 where q0: "q0 = n # q1"
    proof (cases q0)
      case Nil
      with pos show ?thesis by (simp add: remaining_def)
    qed blast
    from both_filled [OF Cons.prems(1) [unfolded q0] both]
    obtain t b1 where step: "match_step b = Some (t, b1)" and stop: "match_step b1 = None"
      and tid: "maker_id buy t = order_id (order_mem b a)"
        "taker_id buy t = order_id (order_mem b c)" "match_quantity t = ?qc"
      and sides: "side_of (\<not> buy) b1 = tl (side_of (\<not> buy) b)"
                 "map fst (side_of buy b1) = map fst (side_of buy b)"
                 "tl (side_of buy b1) = tl (side_of buy b)"
      and Q1: "is_queue (order_mem b1) None (first_order (snd (hd (side_of buy b1)))) q0"
      and rem1: "remaining b1 q0 = remaining b q0"
      unfolding q0 by blast
    have loop: "match_loop acc b = Some (rev acc @ [t], b1)"
      by (subst match_loop.simps, simp add: step, subst match_loop.simps, simp add: stop)
    have fill: "fifo_fill (unat ?qc) (remaining b (a # q0)) = remaining b q0"
      "fifo_trades (unat ?qc) (remaining b (a # q0)) = [unat ?qc]"
      using s0 both by (simp_all add: rem fifo_fill_zero)
    have "fifo_outcome buy b (a # q0) c [t] b1"
      unfolding fifo_outcome_def Let_def fill
      using sides Q1 rem1 tid by (simp add: remaining_def)
    with loop show ?thesis by blast
  next
    case taker
    then have le: "unat ?qc < unat ?qa"
      by (simp add: word_less_nat_alt)
    from head_partial [OF Cons.prems(1) taker]
    obtain t b1 where step: "match_step b = Some (t, b1)" and stop: "match_step b1 = None"
      and tid: "maker_id buy t = order_id (order_mem b a)"
        "taker_id buy t = order_id (order_mem b c)" "match_quantity t = ?qc"
      and sides: "side_of (\<not> buy) b1 = tl (side_of (\<not> buy) b)"
                 "map fst (side_of buy b1) = map fst (side_of buy b)"
                 "tl (side_of buy b1) = tl (side_of buy b)"
      and Q1: "is_queue (order_mem b1) None (first_order (snd (hd (side_of buy b1)))) (a # q0)"
      and rem1: "remaining b1 (a # q0) = (unat ?qa - unat ?qc) # remaining b q0"
      by blast
    have loop: "match_loop acc b = Some (rev acc @ [t], b1)"
      by (subst match_loop.simps, simp add: step, subst match_loop.simps, simp add: stop)
    have fill: "fifo_fill (unat ?qc) (remaining b (a # q0)) =
                  (unat ?qa - unat ?qc) # remaining b q0"
      "fifo_trades (unat ?qc) (remaining b (a # q0)) = [unat ?qc]"
      using s0 le by (simp_all add: rem)
    have "fifo_outcome buy b (a # q0) c [t] b1"
      unfolding fifo_outcome_def Let_def fill
      using sides Q1 rem1 tid by (simp add: remaining_def)
    with loop show ?thesis by blast
  qed
qed

lemma queue_ready_flag:
  "queue_ready buy (b\<lparr>matching_in_progress := f\<rparr>) q c = queue_ready buy b q c"
  by (simp add: queue_ready_def side_of_def cong: list.case_cong prod.case_cong)

lemma fifo_outcome_flag:
  "fifo_outcome buy (b\<lparr>matching_in_progress := f\<rparr>) q c ts b' \<Longrightarrow>
   fifo_outcome buy b q c ts (b'\<lparr>matching_in_progress := g\<rparr>)"
  by (cases buy) (simp_all add: fifo_outcome_def remaining_def side_of_def Let_def)

lemma fifo_book_ready: "queue_ready True fifo_book [0, 1, 2] 3"
  by code_simp

lemma fifo_book_facts:
  "remaining fifo_book [0, 1, 2] = [100, 200, 150]"
  "unat (quantity (order_mem fifo_book 3)) = 250"
  "map (\<lambda>a. order_id (order_mem fifo_book a)) [0, 1, 2] = [1, 2, 3]"
  "matching_in_progress fifo_book = False"
  by code_simp+

lemma fifo_ask_book_ready: "queue_ready False fifo_ask_book [0, 1, 2] 3"
  by code_simp

lemma fifo_ask_book_facts:
  "remaining fifo_ask_book [0, 1, 2] = [100, 200, 150]"
  "unat (quantity (order_mem fifo_ask_book 3)) = 250"
  "map (\<lambda>a. order_id (order_mem fifo_ask_book a)) [0, 1, 2] = [1, 2, 3]"
  "matching_in_progress fifo_ask_book = False"
  by code_simp+

lemma maker_id_True: "maker_id True = bid_id"
  by (rule ext) (simp add: maker_id_def)

lemma maker_id_False: "maker_id False = ask_id"
  by (rule ext) (simp add: maker_id_def)

lemma fifo_outcome_scenario:
  assumes "fifo_outcome buy b [0, 1, 2] 3 ts b'"
    and "remaining b [0, 1, 2] = [100, 200, 150]"
    and "unat (quantity (order_mem b 3)) = 250"
  shows "remaining b' [1, 2] = [50, 150] \<and>
         map (\<lambda>t. unat (match_quantity t)) ts = [100, 150] \<and>
         map (maker_id buy) ts = map (\<lambda>a. order_id (order_mem b a)) [0, 1]"
proof -
  from assms have r: "remaining b' [1, 2] = [50, 150]"
    and n: "map (\<lambda>t. unat (match_quantity t)) ts = [100, 150]"
    by (simp_all add: fifo_outcome_def Let_def)
  from n have "length ts = 2"
    by (metis length_map length_Cons list.size(3) numeral_2_eq_2)
  with assms(1) have "map (maker_id buy) ts = map (\<lambda>a. order_id (order_mem b a)) [0, 1]"
    by (simp add: fifo_outcome_def Let_def numeral_2_eq_2)
  with r n show ?thesis by simp
qed

text \<open>
  Scenario 3 through the public operations: the first buy is filled and gone, the second has
  50 left and heads the level, the third still has its 150.
\<close>

lemma fifo_scenario:
  "map_option
     (\<lambda>(rs, b). (last rs, map (\<lambda>(k, L). (k, level_members (order_mem b) L)) (bids b),
                  remaining b [1, 2], asks b))
     (run [AddOrder (mk_order 1 True (Finite 100) 100 1000),
           AddOrder (mk_order 2 True (Finite 100) 200 1001),
           AddOrder (mk_order 3 True (Finite 100) 150 1002),
           AddOrder (mk_order 4 False (Finite 100) 250 1003)] new_book) =
   Some (Added (Accepted [\<lparr>match_quantity = 100, match_price = Finite 100,
                           bid_id = 1, ask_id = 4\<rparr>,
                          \<lparr>match_quantity = 150, match_price = Finite 100,
                           bid_id = 2, ask_id = 4\<rparr>]),
         [(Finite 100, [1, 2])], [50, 150], [])"
  by code_simp

text \<open>
  The books on which the loop does serve a level in queue order.  Let the best level of one
  side hold a well-linked queue \<open>q\<close> (oldest first) of distinct live orders
  (\<open>queue_ready\<close>), and let a single opposing order \<open>c\<close> that crosses it, and takes less
  than the level's total, be alone at the best level of the other side, with no further
  crossing level behind it.  Then \<^verbatim>\<open>match_orders\<close> returns, and it has filled the queue
  strictly from the front: the trades are against the orders of \<open>q\<close> in queue order with the
  quantities of \<open>fifo_trades\<close>, the orders before the last one traded are filled completely
  and gone from the queue, and every order behind it still has the quantity it had.  (A
  level's queue is in arrival order because \<^verbatim>\<open>InternalPriceLevel::add_order\<close> appends at
  the tail.)  Not every book the calls of the interface produce is of this kind: a slot that
  \<^verbatim>\<open>cancel_order\<close> released while a level still pointed to it can be queued in two levels
  at once, see \<open>later_order_filled_first\<close> below.
\<close>

lemma match_orders_serves_queue:
  assumes "queue_ready buy b q c"
    and "unat (quantity (order_mem b c)) < sum_list (remaining b q)"
    and "\<not> matching_in_progress b"
  shows "\<exists>ts b'. match_orders b = Some (ts, b') \<and> fifo_outcome buy b q c ts b'"
proof -
  let ?b0 = "b\<lparr>matching_in_progress := True\<rparr>"
  have "queue_ready buy ?b0 q c"
    using assms(1) by (simp add: queue_ready_flag)
  moreover have "unat (quantity (order_mem ?b0 c)) < sum_list (remaining ?b0 q)"
    using assms(2) by (simp add: remaining_def)
  ultimately obtain ts b' where run: "match_loop [] ?b0 = Some (rev [] @ ts, b')"
    and out: "fifo_outcome buy ?b0 q c ts b'"
    using match_loop_fifo [of buy ?b0 q c "[]"] by blast
  from run assms(3) have "match_orders b = Some (ts, b'\<lparr>matching_in_progress := False\<rparr>)"
    by (simp add: match_orders_def)
  with fifo_outcome_flag [OF out] show ?thesis by blast
qed

lemma match_orders_serves_queue_scenario:
  "queue_ready True fifo_book [0, 1, 2] 3 \<and>
   unat (quantity (order_mem fifo_book 3)) < sum_list (remaining fifo_book [0, 1, 2]) \<and>
   \<not> matching_in_progress fifo_book \<and>
   (\<exists>ts b'. match_orders fifo_book = Some (ts, b') \<and>
      remaining b' [1, 2] = [50, 150] \<and>
      map (\<lambda>t. unat (match_quantity t)) ts = [100, 150] \<and> map bid_id ts = [1, 2]) \<and>
   queue_ready False fifo_ask_book [0, 1, 2] 3 \<and>
   (\<exists>ts b'. match_orders fifo_ask_book = Some (ts, b') \<and>
      remaining b' [1, 2] = [50, 150] \<and>
      map (\<lambda>t. unat (match_quantity t)) ts = [100, 150] \<and> map ask_id ts = [1, 2])"
proof -
  have lt: "unat (quantity (order_mem fifo_book 3)) < sum_list (remaining fifo_book [0, 1, 2])"
    using fifo_book_facts(1,2) by simp
  have np: "\<not> matching_in_progress fifo_book"
    using fifo_book_facts(4) by simp
  from match_orders_serves_queue [OF fifo_book_ready lt np]
  obtain ts b' where run: "match_orders fifo_book = Some (ts, b')"
    and out: "fifo_outcome True fifo_book [0, 1, 2] 3 ts b'"
    by blast
  from fifo_outcome_scenario [OF out fifo_book_facts(1,2)] fifo_book_facts(3)
  have r: "remaining b' [1, 2] = [50, 150]"
    and n: "map (\<lambda>t. unat (match_quantity t)) ts = [100, 150]"
    and i: "map bid_id ts = [1, 2]"
    by (simp_all add: maker_id_True)
  from run r n i have bid: "\<exists>ts b'. match_orders fifo_book = Some (ts, b') \<and>
      remaining b' [1, 2] = [50, 150] \<and>
      map (\<lambda>t. unat (match_quantity t)) ts = [100, 150] \<and> map bid_id ts = [1, 2]"
    by (intro exI conjI)
  have lt': "unat (quantity (order_mem fifo_ask_book 3))
               < sum_list (remaining fifo_ask_book [0, 1, 2])"
    using fifo_ask_book_facts(1,2) by simp
  have np': "\<not> matching_in_progress fifo_ask_book"
    using fifo_ask_book_facts(4) by simp
  from match_orders_serves_queue [OF fifo_ask_book_ready lt' np']
  obtain ts' b'' where run': "match_orders fifo_ask_book = Some (ts', b'')"
    and out': "fifo_outcome False fifo_ask_book [0, 1, 2] 3 ts' b''"
    by blast
  from fifo_outcome_scenario [OF out' fifo_ask_book_facts(1,2)] fifo_ask_book_facts(3)
  have r': "remaining b'' [1, 2] = [50, 150]"
    and n': "map (\<lambda>t. unat (match_quantity t)) ts' = [100, 150]"
    and i': "map ask_id ts' = [1, 2]"
    by (simp_all add: maker_id_False)
  from run' r' n' i' have ask: "\<exists>ts b'. match_orders fifo_ask_book = Some (ts, b') \<and>
      remaining b' [1, 2] = [50, 150] \<and>
      map (\<lambda>t. unat (match_quantity t)) ts = [100, 150] \<and> map ask_id ts = [1, 2]"
    by (intro exI conjI)
  from fifo_book_ready lt np bid fifo_ask_book_ready ask show ?thesis
    by (intro conjI)
qed

section \<open>Spread\<close>

text \<open>
  \<^verbatim>\<open>get_spread\<close> is 0 on a book without asks; with an ask below the no-ask sentinel it is
  the best ask minus \<^verbatim>\<open>get_best_bid\<close>, which is 0 on a book without bids.
\<close>

lemma get_spread_cases:
  "asks b = [] \<Longrightarrow> get_spread b = Finite 0"
  "asks b = (ap, al) # arest \<Longrightarrow> \<not> deq (lvl_price al) DBL_MAX \<Longrightarrow>
     get_spread b = dsub (lvl_price al) (get_best_bid b)"
  "asks b = (ap, al) # arest \<Longrightarrow> \<not> deq (lvl_price al) DBL_MAX \<Longrightarrow> bids b = [] \<Longrightarrow>
     get_spread b = dsub (lvl_price al) (Finite 0)"
  by (simp_all add: get_spread_def get_best_ask_def get_best_bid_def DBL_MAX_def Let_def)

section \<open>Where the code departs from the specification\<close>

text \<open>
  Claim C1 does not hold of the code.  \<^verbatim>\<open>match_orders\<close> subtracts the traded quantity from
  the two head orders but never from \<^verbatim>\<open>total_quantity\<close> of their levels, and
  \<^verbatim>\<open>remove_order\<close> then subtracts the order's quantity, which is zero by then.  A sell of
  300 at 100 rests; a buy of 200 at 100 trades against it.  The ask level still reports 300
  while its only member has 100 left.
\<close>

theorem aggregate_stale_after_fill:
  "map_option
     (\<lambda>(rs, b). (rs, map (\<lambda>(k, L). (k, total_quantity L, members_quantity (order_mem b) L))
                          (asks b), aggregate_ok b))
     (run [AddOrder (mk_order 1 False (Finite 100) 300 1),
           AddOrder (mk_order 2 True (Finite 100) 200 2)] new_book) =
   Some ([Added (Accepted []),
          Added (Accepted [\<lparr>match_quantity = 200, match_price = Finite 100,
                            bid_id = 2, ask_id = 1\<rparr>])],
         [(Finite 100, 300, 100)], False)"
  by code_simp

text \<open>
  Claim C2 does not hold of the code.  The price-change branch of \<^verbatim>\<open>amend_order\<close> calls
  \<^verbatim>\<open>remove_order\<close>, which clears \<^verbatim>\<open>is_active\<close>, and queues the order again without
  setting the flag.  The matching loop leaves at its guard as soon as such an order is a head.
  A sell at 101 is amended to 100; a buy at 100 is then added.  \<^verbatim>\<open>add_order\<close> returns
  without a trade and the book has best bid 100 and best ask 100.
\<close>

theorem crossed_after_add_order:
  "map_option (\<lambda>(rs, b). (rs, get_best_bid b, get_best_ask b, crossed b))
     (run [AddOrder (mk_order 1 False (Finite 101) 10 1),
           AmendOrder 1 (Finite 100) 10,
           AddOrder (mk_order 2 True (Finite 100) 10 2)] new_book) =
   Some ([Added (Accepted []), Amended True None, Added (Accepted [])],
         Finite 100, Finite 100, True)"
  by code_simp

text \<open>
  Claim C3 does not hold of the code, for the same reason.  After a successful amend from 100
  to 101 the order is the last member of the level at 101 and keeps its id and timestamp, but
  its \<^verbatim>\<open>is_active\<close> flag is false: \<^verbatim>\<open>cancel_order\<close> of its id returns false and a second
  valid \<^verbatim>\<open>amend_order\<close> is refused.
\<close>

theorem amended_order_not_live:
  "map_option
     (\<lambda>(rs, b). (rs, map (\<lambda>(k, L). (k, level_members (order_mem b) L)) (bids b),
                  map_of (order_lookup b) 1, order_id (order_mem b 0),
                  timestamp_ns (order_mem b 0), is_active (order_mem b 0)))
     (run [AddOrder (mk_order 1 True (Finite 100) 10 5),
           AddOrder (mk_order 2 True (Finite 101) 20 6),
           AmendOrder 1 (Finite 101) 10] new_book) =
   Some ([Added (Accepted []), Added (Accepted []), Amended True None],
         [(Finite 101, [1, 0])], Some 0, 1, 5, False) \<and>
   map_option fst
     (run [AddOrder (mk_order 1 True (Finite 100) 10 5),
           AddOrder (mk_order 2 True (Finite 101) 20 6),
           AmendOrder 1 (Finite 101) 10,
           CancelOrder 1] new_book) =
   Some [Added (Accepted []), Added (Accepted []), Amended True None, Cancelled False None] \<and>
   map_option fst
     (run [AddOrder (mk_order 1 True (Finite 100) 10 5),
           AddOrder (mk_order 2 True (Finite 101) 20 6),
           AmendOrder 1 (Finite 101) 10,
           AmendOrder 1 (Finite 102) 10] new_book) =
   Some [Added (Accepted []), Added (Accepted []), Amended True None,
         Amended False (Some OrderNotActive)]"
  by code_simp

text \<open>
  Claim C4 does not hold of the code.  \<^verbatim>\<open>cancel_order\<close> erases the lookup entry before it
  tests \<^verbatim>\<open>is_active\<close>, and on an inactive order it also releases the slot before returning
  false.  After an add and a price amend the order count is 1; the cancel that follows returns
  false, the order count is 0, the slot is on the free list and the level still points to it.
\<close>

theorem rejected_cancel_mutates:
  "map_option (\<lambda>(rs, b). (get_order_count b, free_list_head (order_pool b)))
     (run [AddOrder (mk_order 1 True (Finite 100) 10 1),
           AmendOrder 1 (Finite 101) 10] new_book) =
   Some (1, None) \<and>
   map_option
     (\<lambda>(rs, b). (rs, get_order_count b, free_list_head (order_pool b),
                  map (\<lambda>(k, L). (k, first_order L)) (bids b)))
     (run [AddOrder (mk_order 1 True (Finite 100) 10 1),
           AmendOrder 1 (Finite 101) 10,
           CancelOrder 1] new_book) =
   Some ([Added (Accepted []), Amended True None, Cancelled False None],
         0, Some 0, [(Finite 101, Some 0)])"
  by code_simp

text \<open>
  Claim C7 does not hold of the code.  A buy (id 1) at 100 and a buy (id 2) at 50 rest.  The
  price amend of id 1 to 101 leaves its slot inactive at the head of the level at 101, and
  the \<^verbatim>\<open>cancel_order\<close> that follows returns false but releases the slot while that level
  still points to it.  A buy (id 3) at 50 then takes the released slot and is queued behind
  id 2 in the level at 50: the queue there is id 2, id 3, in arrival order, 10 each.  A sell
  of 5 at 101 arrives.  The loop takes the head of the bid level at 101, which is the slot of
  id 3, and trades 5 at 50 against id 3.  The opposing order took 5, less than the 20 resting
  at 50, and the later order at that price was filled while the earlier one, id 2, still has
  its 10.
\<close>

theorem later_order_filled_first:
  "map_option
     (\<lambda>(rs, b). (rs, map (\<lambda>(k, L). (k, map (\<lambda>a. (order_id (order_mem b a),
                                                   timestamp_ns (order_mem b a),
                                                   quantity (order_mem b a)))
                                         (level_members (order_mem b) L))) (bids b)))
     (run [AddOrder (mk_order 1 True (Finite 100) 10 1),
           AddOrder (mk_order 2 True (Finite 50) 10 2),
           AmendOrder 1 (Finite 101) 10,
           CancelOrder 1,
           AddOrder (mk_order 3 True (Finite 50) 10 3)] new_book) =
   Some ([Added (Accepted []), Added (Accepted []), Amended True None,
          Cancelled False None, Added (Accepted [])],
         [(Finite 101, [(3, 3, 10)]), (Finite 50, [(2, 2, 10), (3, 3, 10)])]) \<and>
   map_option
     (\<lambda>(rs, b). (last rs, map (\<lambda>(k, L). (k, map (\<lambda>a. (order_id (order_mem b a),
                                                        timestamp_ns (order_mem b a),
                                                        quantity (order_mem b a)))
                                              (level_members (order_mem b) L))) (bids b)))
     (run [AddOrder (mk_order 1 True (Finite 100) 10 1),
           AddOrder (mk_order 2 True (Finite 50) 10 2),
           AmendOrder 1 (Finite 101) 10,
           CancelOrder 1,
           AddOrder (mk_order 3 True (Finite 50) 10 3),
           AddOrder (mk_order 4 False (Finite 101) 5 4)] new_book) =
   Some (Added (Accepted [\<lparr>match_quantity = 5, match_price = Finite 50,
                            bid_id = 3, ask_id = 4\<rparr>]),
         [(Finite 101, [(3, 3, 5)]), (Finite 50, [(2, 2, 10), (3, 3, 5)])])"
  by code_simp

text \<open>
  Claim C6 does not hold of the code.  \<^verbatim>\<open>get_spread\<close> returns 0 only when
  \<^verbatim>\<open>get_best_ask\<close> is the no-ask sentinel.  With no bid and one ask at 100 it returns
  100, the ask minus the no-bid sentinel 0.
\<close>

theorem spread_with_empty_bids:
  "map_option (\<lambda>(rs, b). (get_bid_levels b, get_ask_levels b, get_best_ask b, get_spread b))
     (run [AddOrder (mk_order 1 False (Finite 100) 10 1)] new_book) =
   Some (0, 1, Finite 100, Finite 100)"
  by code_simp

end
